theory Spec2Isabelle
  imports Complex_Main
begin

section \<open>Memory Grid: shared data\<close>

text \<open>
  A grid position is the JavaScript object \<open>{x, z}\<close>; both coordinates are integers
  (they come from loop counters and from the integer inputs of the tile triggers).
  A read of a property of \<open>undefined\<close> or \<open>null\<close> raises a TypeError in the source;
  the model returns it as a value.
\<close>

type_synonym pos = "int \<times> int"

datatype js_error = TypeError

section \<open>MathHelpers.js\<close>

definition isValidGridPosition :: "int \<Rightarrow> int \<Rightarrow> int \<Rightarrow> int \<Rightarrow> bool" where
  "isValidGridPosition gridX gridZ rows columns =
     (gridX \<ge> 0 \<and> gridX < columns \<and> gridZ \<ge> 0 \<and> gridZ < rows)"

text \<open>\<open>isSameGridPosition\<close>: a missing (null) position is never the same as anything.\<close>

fun isSameGridPosition :: "pos option \<Rightarrow> pos option \<Rightarrow> bool" where
  "isSameGridPosition (Some (ax, az)) (Some (bx, bz)) = (ax = bx \<and> az = bz)"
| "isSameGridPosition _ _ = False"

text \<open>The four orthogonal directions, in the order of the source: up, down, left, right.\<close>

definition directions :: "pos list" where
  "directions = [(0, 1), (0, -1), (-1, 0), (1, 0)]"

definition getNeighbors :: "int \<Rightarrow> int \<Rightarrow> int \<Rightarrow> int \<Rightarrow> pos list" where
  "getNeighbors gridX gridZ rows columns =
     filter (\<lambda>(newX, newZ). isValidGridPosition newX newZ rows columns)
       (map (\<lambda>(dx, dz). (gridX + dx, gridZ + dz)) directions)"

text \<open>
  \<open>Math.random()\<close> is the one source of chance. It is modelled by a source of natural
  numbers that every call consumes one element of; \<open>nextRandom\<close> returns that element and
  the rest of the source. A theorem that holds for every source holds for every run.
\<close>

type_synonym rng = "nat \<Rightarrow> nat"

definition nextRandom :: "rng \<Rightarrow> nat \<times> rng" where
  "nextRandom g = (g 0, \<lambda>n. g (Suc n))"

text \<open>
  \<open>randomInt(min, max) = Math.floor(Math.random() * (max - min + 1)) + min\<close>. With
  \<open>u\<close> in \<open>[0, 1)\<close> the floor is one of \<open>0, ..., max - min\<close>; the drawn natural picks it
  by its remainder. The source calls it only with \<open>min = 0\<close> and \<open>max \<ge> -1\<close>; for
  \<open>max - min + 1 = 0\<close> the product is \<open>0\<close> and so is its floor.
\<close>

definition randomInt :: "int \<Rightarrow> int \<Rightarrow> rng \<Rightarrow> int \<times> rng" where
  "randomInt lo hi g =
     (let (r, g1) = nextRandom g
      in if hi - lo + 1 \<le> 0 then (lo, g1)
         else (int (r mod nat (hi - lo + 1)) + lo, g1))"

text \<open>
  \<open>shuffleArray\<close>: the Fisher-Yates loop \<open>for (i = length - 1; i > 0; i--)\<close>, swapping
  \<open>array[i]\<close> with \<open>array[randomInt(0, i)]\<close>. \<open>shuffleFrom i\<close> is the loop from index
  \<open>i\<close> downwards.
\<close>

fun shuffleFrom :: "nat \<Rightarrow> 'a list \<Rightarrow> rng \<Rightarrow> 'a list \<times> rng" where
  "shuffleFrom 0 array g = (array, g)"
| "shuffleFrom (Suc i) array g =
     (let (j, g1) = randomInt 0 (int (Suc i)) g;
          temp = array ! Suc i;
          array1 = array[Suc i := array ! nat j];
          array2 = array1[nat j := temp]
      in shuffleFrom i array2 g1)"

definition shuffleArray :: "'a list \<Rightarrow> rng \<Rightarrow> 'a list \<times> rng" where
  "shuffleArray array g = shuffleFrom (length array - 1) array g"

section \<open>PathGenerator.js\<close>

text \<open>
  \<open>visited\<close> is the object used as a set of position keys \<open>x + "," + z\<close>; the key of a
  pair of integers determines the pair, so the model keeps the set of positions.
\<close>

definition countUnvisitedNeighbors :: "int \<Rightarrow> int \<Rightarrow> int \<Rightarrow> int \<Rightarrow> pos set \<Rightarrow> int" where
  "countUnvisitedNeighbors x z rows columns visited =
     int (length (filter (\<lambda>n. n \<notin> visited) (getNeighbors x z rows columns)))"

text \<open>
  The comparator of the Warnsdorff branch: fewer exits first, and on a tie the sign of
  \<open>Math.random() - 0.5\<close>, taken from the parity of the drawn number.
\<close>

definition warnsdorffCompare :: "int \<Rightarrow> int \<Rightarrow> pos set \<Rightarrow> pos \<Rightarrow> pos \<Rightarrow> rng \<Rightarrow> int \<times> rng" where
  "warnsdorffCompare rows columns visited a b g =
     (let aExits = countUnvisitedNeighbors (fst a) (snd a) rows columns visited;
          bExits = countUnvisitedNeighbors (fst b) (snd b) rows columns visited
      in if aExits \<noteq> bExits then (aExits - bExits, g)
         else (let (r, g1) = nextRandom g in (if r mod 2 = 0 then -1 else 1, g1)))"

text \<open>
  \<open>Array.prototype.sort\<close> with a comparator is a built-in of the engine. It is modelled
  as an insertion sort that asks the comparator for every comparison it makes; the
  properties below use only that the result is a rearrangement of the array.
\<close>

fun sortInsert :: "('a \<Rightarrow> 'a \<Rightarrow> rng \<Rightarrow> int \<times> rng) \<Rightarrow> 'a \<Rightarrow> 'a list \<Rightarrow> rng \<Rightarrow> 'a list \<times> rng" where
  "sortInsert cmp a [] g = ([a], g)"
| "sortInsert cmp a (b # bs) g =
     (let (c, g1) = cmp a b g
      in if c \<le> 0 then (a # b # bs, g1)
         else (let (rest, g2) = sortInsert cmp a bs g1 in (b # rest, g2)))"

fun arraySort :: "('a \<Rightarrow> 'a \<Rightarrow> rng \<Rightarrow> int \<times> rng) \<Rightarrow> 'a list \<Rightarrow> rng \<Rightarrow> 'a list \<times> rng" where
  "arraySort cmp [] g = ([], g)"
| "arraySort cmp (a # as) g =
     (let (sorted, g1) = arraySort cmp as g in sortInsert cmp a sorted g1)"

text \<open>
  \<open>getRandomEdgePosition\<close>: the bottom row, the top row, then the left and the right
  column without their corners; \<open>edges[index]\<close> is \<open>undefined\<close> (here \<open>None\<close>) when the
  list is empty.
\<close>

definition edgePositions :: "int \<Rightarrow> int \<Rightarrow> pos list" where
  "edgePositions rows columns =
     map (\<lambda>x. (x, 0)) [0..columns - 1] @
     map (\<lambda>x. (x, rows - 1)) [0..columns - 1] @
     map (\<lambda>z. (0, z)) [1..rows - 2] @
     map (\<lambda>z. (columns - 1, z)) [1..rows - 2]"

definition getRandomEdgePosition :: "int \<Rightarrow> int \<Rightarrow> rng \<Rightarrow> pos option \<times> rng" where
  "getRandomEdgePosition rows columns g =
     (let edges = edgePositions rows columns;
          (index, g1) = randomInt 0 (int (length edges) - 1) g
      in (if 0 \<le> index \<and> nat index < length edges then Some (edges ! nat index) else None, g1))"

text \<open>
  The loop of \<open>generatePathAttempt\<close>. The path is kept in the order of the array
  (\<open>push\<close> appends, \<open>pop\<close> drops the last element). Reading \<open>.x\<close> of an undefined
  position raises a TypeError: of the current position when the path is empty, of the
  new start when there is no edge position, of the next position when the ordered
  neighbour list is empty.
\<close>

function generatePathLoop ::
  "int \<Rightarrow> int \<Rightarrow> int \<Rightarrow> pos list \<Rightarrow> pos set \<Rightarrow> int \<Rightarrow> rng \<Rightarrow> js_error + (pos list \<times> rng)" where
  "generatePathLoop rows columns pathLength path visited attempts g =
     (if int (length path) < pathLength \<and> attempts < pathLength * 100 then
        (if path = [] then Inl TypeError
         else
           (let currentPos = last path;
                neighbors = getNeighbors (fst currentPos) (snd currentPos) rows columns;
                validNeighbors = filter (\<lambda>neighbor. neighbor \<notin> visited) neighbors
            in if length validNeighbors = 0 then
                 (if length path > 1 then
                    generatePathLoop rows columns pathLength (butlast path)
                      (visited - {last path}) (attempts + 1) g
                  else
                    (case getRandomEdgePosition rows columns g of
                       (None, g1) \<Rightarrow> Inl TypeError
                     | (Some startPos, g1) \<Rightarrow>
                         generatePathLoop rows columns pathLength [startPos] {startPos}
                           (attempts + 1) g1))
               else
                 (case (if pathLength \<ge> 23
                        then arraySort (warnsdorffCompare rows columns visited) validNeighbors g
                        else shuffleArray validNeighbors g) of
                    ([], g1) \<Rightarrow> Inl TypeError
                  | (nextPos # _, g1) \<Rightarrow>
                      generatePathLoop rows columns pathLength (path @ [nextPos])
                        (insert nextPos visited) (attempts + 1) g1)))
      else Inr (path, g))"
  by pat_completeness auto
termination
  by (relation "measure (\<lambda>(rows, columns, pathLength, path, visited, attempts, g).
        nat (pathLength * 100 - attempts))") auto

declare generatePathLoop.simps [simp del]

definition generatePathAttempt ::
  "int \<Rightarrow> int \<Rightarrow> int \<Rightarrow> pos option \<Rightarrow> rng \<Rightarrow> js_error + (pos list \<times> rng)" where
  "generatePathAttempt rows columns pathLength startPos g =
     (case (case startPos of
              None \<Rightarrow> getRandomEdgePosition rows columns g
            | Some p \<Rightarrow> (Some p, g)) of
        (None, g1) \<Rightarrow> Inl TypeError
      | (Some start, g1) \<Rightarrow> generatePathLoop rows columns pathLength [start] {start} 0 g1)"

definition MAX_RETRIES :: nat where
  "MAX_RETRIES = 10"

text \<open>
  The retry loop of \<open>generatePath\<close>, by the number of retries still to run
  (\<open>MAX_RETRIES - retry\<close>). After the loop the warning reads \<open>bestPath.length\<close>, a
  TypeError if no attempt ever ran.
\<close>

fun generatePathRetries ::
  "nat \<Rightarrow> int \<Rightarrow> int \<Rightarrow> int \<Rightarrow> pos option \<Rightarrow> pos list option \<Rightarrow> rng \<Rightarrow> js_error + (pos list \<times> rng)" where
  "generatePathRetries 0 rows columns pathLength startPos bestPath g =
     (case bestPath of None \<Rightarrow> Inl TypeError | Some best \<Rightarrow> Inr (best, g))"
| "generatePathRetries (Suc left) rows columns pathLength startPos bestPath g =
     (case generatePathAttempt rows columns pathLength startPos g of
        Inl e \<Rightarrow> Inl e
      | Inr (result, g1) \<Rightarrow>
          if int (length result) \<ge> pathLength then Inr (result, g1)
          else generatePathRetries left rows columns pathLength startPos
                 (case bestPath of
                    None \<Rightarrow> Some result
                  | Some best \<Rightarrow> if length result > length best then Some result else Some best)
                 g1)"

definition generatePath ::
  "int \<Rightarrow> int \<Rightarrow> int \<Rightarrow> pos option \<Rightarrow> rng \<Rightarrow> js_error + (pos list \<times> rng)" where
  "generatePath rows columns pathLength startPos g =
     (let maxPossibleLength = rows * columns;
          pathLength1 = min pathLength maxPossibleLength
      in generatePathRetries MAX_RETRIES rows columns pathLength1 startPos None g)"

text \<open>\<open>isValidPath\<close>: every step is exactly one unit along exactly one axis.\<close>

fun isValidPath :: "pos list \<Rightarrow> bool" where
  "isValidPath (prv # cur # rest) =
     (let dx = \<bar>fst cur - fst prv\<bar>; dz = \<bar>snd cur - snd prv\<bar>
      in if \<not> ((dx = 1 \<and> dz = 0) \<or> (dx = 0 \<and> dz = 1)) then False
         else isValidPath (cur # rest))"
| "isValidPath _ = True"

definition generatePathFromBottom :: "int \<Rightarrow> int \<Rightarrow> int \<Rightarrow> rng \<Rightarrow> js_error + (pos list \<times> rng)" where
  "generatePathFromBottom rows columns pathLength g =
     (let startX = columns div 2;
          startZ = rows - 1;
          startPos = (startX, startZ)
      in generatePath rows columns pathLength (Some startPos) g)"


section \<open>TileTrigger.js\<close>





text \<open>
  The script state of one trigger: its tile, its direction label, the single-fire latch
  and whether a callback has been installed by \<open>setup\<close> (here \<open>setupTrigger\<close>).
\<close>

record tile_trigger =
  trg_gridX :: int
  trg_gridZ :: int
  trg_direction :: string
  hasTriggered :: bool
  onTriggerCallback :: bool

definition setupTrigger :: "int \<Rightarrow> int \<Rightarrow> string \<Rightarrow> tile_trigger" where
  "setupTrigger x z dir =
     \<lparr>trg_gridX = x, trg_gridZ = z, trg_direction = dir,
      hasTriggered = False, onTriggerCallback = True\<rparr>"

definition resetTrigger :: "tile_trigger \<Rightarrow> tile_trigger" where
  "resetTrigger t = t\<lparr>hasTriggered := False\<rparr>"






section \<open>Constants.js\<close>

text \<open>The grid and level constants the modelled functions read.\<close>

definition DEFAULT_ROWS :: int where "DEFAULT_ROWS = 5"
definition DEFAULT_COLUMNS :: int where "DEFAULT_COLUMNS = 5"
definition TILE_SIZE :: rat where "TILE_SIZE = 50"
definition TILE_GAP :: rat where "TILE_GAP = 5"
definition GRID_ROWS :: int where "GRID_ROWS = 5"
definition GRID_COLUMNS :: int where "GRID_COLUMNS = 5"
definition BASE_PATH_LENGTH :: int where "BASE_PATH_LENGTH = 5"
definition PATH_INCREMENT :: int where "PATH_INCREMENT = 2"
definition MAX_PATH_LENGTH :: int where "MAX_PATH_LENGTH = 25"
definition MEMORIZE_TIME :: int where "MEMORIZE_TIME = 5"

section \<open>GridManager.js\<close>

text \<open>
  Lengths are centimetres, kept as exact rationals. The model holds the data of the
  grid: the tile records, the local position of every tile object, the trigger scripts
  and the path. Colours, alpha, arrows and scale of the scene objects are rendering
  state and are left out.
\<close>

record vec3 =
  vx :: rat
  vy :: rat
  vz :: rat

definition gridToWorld :: "int \<Rightarrow> int \<Rightarrow> vec3 \<Rightarrow> rat \<Rightarrow> rat \<Rightarrow> vec3" where
  "gridToWorld gridX gridZ gridOrigin tSize tGap =
     (let totalTileSize = tSize + tGap;
          halfTile = tSize / 2;
          worldX = vx gridOrigin + of_int gridX * totalTileSize + halfTile;
          worldZ = vz gridOrigin + of_int gridZ * totalTileSize + halfTile;
          worldY = vy gridOrigin
      in \<lparr>vx = worldX, vy = worldY, vz = worldZ\<rparr>)"

datatype tile_state = StDefault | StPath | StCorrect | StWrong | StStart | StEnd

record tile =
  tile_gridX :: int
  tile_gridZ :: int
  worldPosition :: vec3
  tile_state :: tile_state
  isPathTile :: bool
  pathIndex :: int

record tile_object =
  localPosition :: vec3
  obj_gridX :: int
  obj_gridZ :: int

text \<open>
  The transform of the grid parent: its world position, and what
  \<open>getWorldRotation().invert().multiplyVec3\<close> does to a vector (the quaternion type
  belongs to the engine).
\<close>

record transform =
  tr_worldPosition :: vec3
  tr_invRotate :: "vec3 \<Rightarrow> vec3"

text \<open>
  A trigger object is the instantiated trigger prefab; its script component, when the
  prefab has one, is the \<open>tile_trigger\<close> state. \<open>triggerPrefab\<close> is \<open>None\<close> when no
  prefab is assigned and otherwise tells whether the prefab carries the script.
\<close>

type_synonym trigger_object = "tile_trigger option"

record grid_manager =
  gm_rows :: int
  gm_columns :: int
  tileSize :: rat
  tileGap :: rat
  origin :: "vec3 option"
  tiles :: "tile list list"
  tileObjects :: "tile_object option list list"
  triggerObjects :: "trigger_object option list list"
  gm_path :: "pos list"
  isRevealed :: bool
  isInitialized :: bool
  gridParent :: "transform option"
  tilePrefab :: bool
  triggerPrefab :: "bool option"
  onTriggerEnteredCallback :: bool

definition createTriggerPlane :: "grid_manager \<Rightarrow> tile \<Rightarrow> trigger_object option" where
  "createTriggerPlane gm tileData =
     (case triggerPrefab gm of
        None \<Rightarrow> None
      | Some hasScript \<Rightarrow>
          Some (if hasScript
                then Some (setupTrigger (tile_gridX tileData) (tile_gridZ tileData) ''center'')
                else None))"

definition createTileObject :: "grid_manager \<Rightarrow> tile \<Rightarrow> tile_object option" where
  "createTileObject gm tileData =
     (if tilePrefab gm then
        (let totalTileSize = tileSize gm + tileGap gm;
             halfTile = tileSize gm / 2;
             gridWidth = of_int (gm_columns gm) * totalTileSize - tileGap gm;
             offsetX = - gridWidth / 2;
             startGridZ = gm_rows gm - 1;
             localX = of_int (tile_gridX tileData) * totalTileSize + halfTile + offsetX;
             localY = 0;
             localZ = halfTile + of_int (tile_gridZ tileData - startGridZ) * totalTileSize
         in Some \<lparr>localPosition = \<lparr>vx = localX, vy = localY, vz = localZ\<rparr>,
                  obj_gridX = tile_gridX tileData, obj_gridZ = tile_gridZ tileData\<rparr>)
      else None)"

definition newTileData :: "grid_manager \<Rightarrow> vec3 \<Rightarrow> int \<Rightarrow> int \<Rightarrow> tile" where
  "newTileData gm org x z =
     \<lparr>tile_gridX = x, tile_gridZ = z,
      worldPosition = gridToWorld x z org (tileSize gm) (tileGap gm),
      tile_state = StDefault, isPathTile = False, pathIndex = -1\<rparr>"

text \<open>
  \<open>createGrid\<close>: one row per \<open>z\<close>, one cell per \<open>x\<close>. \<open>gridToWorld\<close> reads the origin for
  every cell, so a missing origin is a TypeError as soon as there is a cell.
\<close>

definition createGrid :: "grid_manager \<Rightarrow> js_error + grid_manager" where
  "createGrid gm =
     (case origin gm of
        None \<Rightarrow>
          if 0 < gm_rows gm \<and> 0 < gm_columns gm then Inl TypeError
          else Inr (gm\<lparr>tiles := map (\<lambda>z. []) [0..gm_rows gm - 1],
                        tileObjects := map (\<lambda>z. []) [0..gm_rows gm - 1],
                        triggerObjects := map (\<lambda>z. []) [0..gm_rows gm - 1]\<rparr>)
      | Some org \<Rightarrow>
          Inr (gm\<lparr>tiles :=
                     map (\<lambda>z. map (\<lambda>x. newTileData gm org x z) [0..gm_columns gm - 1])
                       [0..gm_rows gm - 1],
                   tileObjects :=
                     map (\<lambda>z. map (\<lambda>x. createTileObject gm (newTileData gm org x z))
                                 [0..gm_columns gm - 1])
                       [0..gm_rows gm - 1],
                   triggerObjects :=
                     map (\<lambda>z. map (\<lambda>x. createTriggerPlane gm (newTileData gm org x z))
                                 [0..gm_columns gm - 1])
                       [0..gm_rows gm - 1]\<rparr>))"

definition clearGrid :: "grid_manager \<Rightarrow> grid_manager" where
  "clearGrid gm = gm\<lparr>tiles := [], tileObjects := [], triggerObjects := [], gm_path := []\<rparr>"

text \<open>\<open>rows || DEFAULT_ROWS\<close>: an absent or zero argument takes the default.\<close>

definition orDefault :: "int option \<Rightarrow> int \<Rightarrow> int" where
  "orDefault v d = (case v of None \<Rightarrow> d | Some n \<Rightarrow> if n = 0 then d else n)"

definition initialize :: "vec3 option \<Rightarrow> int option \<Rightarrow> int option \<Rightarrow> grid_manager \<Rightarrow> js_error + grid_manager" where
  "initialize originPosition rows columns gm =
     (case createGrid (clearGrid (gm\<lparr>origin := originPosition,
                                      gm_rows := orDefault rows DEFAULT_ROWS,
                                      gm_columns := orDefault columns DEFAULT_COLUMNS\<rparr>)) of
        Inl e \<Rightarrow> Inl e
      | Inr gm1 \<Rightarrow> Inr (gm1\<lparr>isInitialized := True\<rparr>))"

definition isValidTilePosition :: "grid_manager \<Rightarrow> int \<Rightarrow> int \<Rightarrow> bool" where
  "isValidTilePosition gm gridX gridZ =
     isValidGridPosition gridX gridZ (gm_rows gm) (gm_columns gm)"

text \<open>
  \<open>array[z][x]\<close> on the nested arrays: \<open>array[z]\<close> is undefined outside the array, and
  then reading \<open>[x]\<close> of it is a TypeError. \<open>hasRow\<close> tells whether \<open>array[z]\<close> is there,
  \<open>cellAt\<close> reads \<open>array[z][x]\<close> when both are.
\<close>

definition hasRow :: "'a list list \<Rightarrow> int \<Rightarrow> bool" where
  "hasRow array z = (0 \<le> z \<and> nat z < length array)"

definition cellAt :: "'a list list \<Rightarrow> int \<Rightarrow> int \<Rightarrow> 'a option" where
  "cellAt array z x =
     (if hasRow array z \<and> 0 \<le> x \<and> nat x < length (array ! nat z)
      then Some (array ! nat z ! nat x) else None)"

text \<open>
  An assignment to fields of \<open>tiles[z][x]\<close>: a TypeError when there is no such tile
  record, the updated array otherwise.
\<close>

definition updateTile :: "int \<Rightarrow> int \<Rightarrow> (tile \<Rightarrow> tile) \<Rightarrow> tile list list \<Rightarrow> js_error + tile list list" where
  "updateTile x z f ts =
     (case cellAt ts z x of
        None \<Rightarrow> Inl TypeError
      | Some t \<Rightarrow> Inr (ts[nat z := (ts ! nat z)[nat x := f t]]))"

definition getTileAt :: "grid_manager \<Rightarrow> int \<Rightarrow> int \<Rightarrow> js_error + tile option" where
  "getTileAt gm gridX gridZ =
     (if \<not> isValidTilePosition gm gridX gridZ then Inr None
      else if \<not> hasRow (tiles gm) gridZ then Inl TypeError
      else Inr (cellAt (tiles gm) gridZ gridX))"

definition getPath :: "grid_manager \<Rightarrow> pos list" where
  "getPath gm = gm_path gm"

definition markTile :: "tile_state \<Rightarrow> int \<Rightarrow> int \<Rightarrow> grid_manager \<Rightarrow> js_error + grid_manager" where
  "markTile st gridX gridZ gm =
     (if \<not> isValidTilePosition gm gridX gridZ then Inr gm
      else if \<not> hasRow (tileObjects gm) gridZ then Inl TypeError
      else (case updateTile gridX gridZ (\<lambda>t. t\<lparr>tile_state := st\<rparr>) (tiles gm) of
              Inl e \<Rightarrow> Inl e
            | Inr ts \<Rightarrow> Inr (gm\<lparr>tiles := ts\<rparr>)))"

definition markTileCorrect :: "int \<Rightarrow> int \<Rightarrow> grid_manager \<Rightarrow> js_error + grid_manager" where
  "markTileCorrect gridX gridZ gm = markTile StCorrect gridX gridZ gm"

definition markTileWrong :: "int \<Rightarrow> int \<Rightarrow> grid_manager \<Rightarrow> js_error + grid_manager" where
  "markTileWrong gridX gridZ gm = markTile StWrong gridX gridZ gm"

text \<open>The cells in the order of the nested loops: \<open>z\<close> outside, \<open>x\<close> inside.\<close>

definition gridCells :: "int \<Rightarrow> int \<Rightarrow> pos list" where
  "gridCells rows columns =
     concat (map (\<lambda>z. map (\<lambda>x. (x, z)) [0..columns - 1]) [0..rows - 1])"

definition resetTile :: "tile \<Rightarrow> tile" where
  "resetTile t = t\<lparr>tile_state := StDefault, isPathTile := False, pathIndex := -1\<rparr>"

fun resetTiles :: "pos list \<Rightarrow> tile_object option list list \<Rightarrow> tile list list \<Rightarrow> js_error + tile list list" where
  "resetTiles [] objs ts = Inr ts"
| "resetTiles ((x, z) # cells) objs ts =
     (case updateTile x z resetTile ts of
        Inl e \<Rightarrow> Inl e
      | Inr ts1 \<Rightarrow> if \<not> hasRow objs z then Inl TypeError else resetTiles cells objs ts1)"

definition resetTileStates :: "grid_manager \<Rightarrow> js_error + grid_manager" where
  "resetTileStates gm =
     (case resetTiles (gridCells (gm_rows gm) (gm_columns gm)) (tileObjects gm) (tiles gm) of
        Inl e \<Rightarrow> Inl e
      | Inr ts \<Rightarrow> Inr (gm\<lparr>tiles := ts, gm_path := [], isRevealed := False\<rparr>))"

text \<open>
  \<open>generateNewPath\<close>: the path from the near row, then the loop that marks its tiles;
  \<open>markPathTiles i n\<close> is the loop from index \<open>i\<close> on a path of length \<open>n\<close>.
\<close>

fun markPathTiles :: "nat \<Rightarrow> nat \<Rightarrow> pos list \<Rightarrow> tile list list \<Rightarrow> js_error + tile list list" where
  "markPathTiles i n [] ts = Inr ts"
| "markPathTiles i n ((x, z) # rest) ts =
     (case updateTile x z
             (\<lambda>t. t\<lparr>isPathTile := True, pathIndex := int i,
                     tile_state := (if i = 0 then StStart
                                    else if i = n - 1 then StEnd else StPath)\<rparr>) ts of
        Inl e \<Rightarrow> Inl e
      | Inr ts1 \<Rightarrow> markPathTiles (Suc i) n rest ts1)"

definition generateNewPath :: "int \<Rightarrow> grid_manager \<Rightarrow> rng \<Rightarrow> js_error + (grid_manager \<times> rng)" where
  "generateNewPath pathLength gm g =
     (case generatePathFromBottom (gm_rows gm) (gm_columns gm) pathLength g of
        Inl e \<Rightarrow> Inl e
      | Inr (newPath, g1) \<Rightarrow>
          (case markPathTiles 0 (length newPath) newPath (tiles gm) of
             Inl e \<Rightarrow> Inl e
           | Inr ts \<Rightarrow> Inr (gm\<lparr>gm_path := newPath, tiles := ts\<rparr>, g1)))"


definition resetTriggers :: "grid_manager \<Rightarrow> grid_manager" where
  "resetTriggers gm =
     gm\<lparr>triggerObjects :=
          map (map (\<lambda>triggerObject.
                      case triggerObject of
                        None \<Rightarrow> None
                      | Some None \<Rightarrow> Some None
                      | Some (Some triggerScript) \<Rightarrow> Some (Some (resetTrigger triggerScript))))
            (triggerObjects gm)\<rparr>"


section \<open>PlayerTracker.js\<close>

text \<open>
  The tracker emits events only through its callbacks. The model records every callback
  invocation, in order, in \<open>emitted\<close>; a callback that was never registered emits
  nothing. What a registered callback does in turn belongs to its owner and is not part
  of the tracker. Sounds and debug logging are left out.
\<close>

datatype event =
    TileExited pos
  | TileEntered pos
  | CorrectStep pos nat nat
  | WrongStep pos pos
  | PathCompleted "pos list"

record player_tracker =
  isTracking :: bool
  floorY :: rat
  pathProgress :: nat
  stepsOnPath :: "pos list"
  currentTile :: "pos option"
  cb_onTileEntered :: bool
  cb_onTileExited :: bool
  cb_onCorrectStep :: bool
  cb_onWrongStep :: bool
  cb_onPathCompleted :: bool
  gridManager :: "grid_manager option"
  skipPathCheck :: bool
  emitted :: "event list"

definition emit :: "bool \<Rightarrow> event \<Rightarrow> player_tracker \<Rightarrow> player_tracker" where
  "emit registered ev s = (if registered then s\<lparr>emitted := emitted s @ [ev]\<rparr> else s)"

text \<open>\<open>path[i]\<close>: undefined beyond the end of the array.\<close>

definition pathAt :: "pos list \<Rightarrow> nat \<Rightarrow> pos option" where
  "pathAt path i = (if i < length path then Some (path ! i) else None)"

text \<open>
  \<open>validateStep\<close>. \<open>skipPathCheck\<close> is \<open>Constants.DebugConfig.SKIP_PATH_CHECK\<close>. In the
  wrong-step branch the log message reads \<open>expectedPos.x\<close> before the callback, a
  TypeError when the path has no element at \<open>pathProgress\<close>.
\<close>

definition validateStep :: "pos \<Rightarrow> player_tracker \<Rightarrow> js_error + player_tracker" where
  "validateStep gridPos s =
     (case gridManager s of
        None \<Rightarrow> Inr s
      | Some gm \<Rightarrow>
          (let path = getPath gm in
           if length path = 0 then Inr s
           else if skipPathCheck s then
             (let endPos = last path in
              case markTileCorrect (fst gridPos) (snd gridPos) gm of
                Inl e \<Rightarrow> Inl e
              | Inr gm1 \<Rightarrow>
                  (let s1 = s\<lparr>gridManager := Some gm1, stepsOnPath := stepsOnPath s @ [gridPos]\<rparr> in
                   if isSameGridPosition (Some gridPos) (Some endPos) then
                     (let s2 = s1\<lparr>pathProgress := length path\<rparr>;
                          s3 = emit (cb_onCorrectStep s2) (CorrectStep gridPos (length path) (length path)) s2
                      in Inr (emit (cb_onPathCompleted s3) (PathCompleted (stepsOnPath s3)) s3))
                   else
                     (let s2 = s1\<lparr>pathProgress := pathProgress s1 + 1\<rparr>
                      in Inr (emit (cb_onCorrectStep s2)
                                (CorrectStep gridPos (pathProgress s2) (length path)) s2))))
           else
             (let expectedPos = pathAt path (pathProgress s) in
              if isSameGridPosition (Some gridPos) expectedPos then
                (let s1 = s\<lparr>stepsOnPath := stepsOnPath s @ [gridPos],
                              pathProgress := pathProgress s + 1\<rparr>
                 in case markTileCorrect (fst gridPos) (snd gridPos) gm of
                      Inl e \<Rightarrow> Inl e
                    | Inr gm1 \<Rightarrow>
                        (let s2 = s1\<lparr>gridManager := Some gm1\<rparr>;
                             s3 = emit (cb_onCorrectStep s2)
                                    (CorrectStep gridPos (pathProgress s2) (length path)) s2
                         in if pathProgress s3 \<ge> length path
                            then Inr (emit (cb_onPathCompleted s3) (PathCompleted (stepsOnPath s3)) s3)
                            else Inr s3))
              else
                (case markTileWrong (fst gridPos) (snd gridPos) gm of
                   Inl e \<Rightarrow> Inl e
                 | Inr gm1 \<Rightarrow>
                     (case expectedPos of
                        None \<Rightarrow> Inl TypeError
                      | Some expected \<Rightarrow>
                          (let s1 = s\<lparr>gridManager := Some gm1\<rparr>
                           in Inr (emit (cb_onWrongStep s1) (WrongStep gridPos expected) s1)))))))"

definition handleTriggerEntered :: "int \<Rightarrow> int \<Rightarrow> player_tracker \<Rightarrow> js_error + player_tracker" where
  "handleTriggerEntered gridX gridZ s =
     (if \<not> isTracking s then Inr s
      else
        (let newGridPos = (gridX, gridZ) in
         if isSameGridPosition (Some newGridPos) (currentTile s) then Inr s
         else
           (let previousTile = currentTile s;
                s1 = s\<lparr>currentTile := Some newGridPos\<rparr>;
                s2 = (case previousTile of
                        None \<Rightarrow> s1
                      | Some prevTile \<Rightarrow> emit (cb_onTileExited s1) (TileExited prevTile) s1);
                s3 = emit (cb_onTileEntered s2) (TileEntered newGridPos) s2
            in validateStep newGridPos s3)))"

definition startTracking :: "player_tracker \<Rightarrow> player_tracker" where
  "startTracking s =
     s\<lparr>isTracking := True, pathProgress := 0, stepsOnPath := [], currentTile := None,
       gridManager := map_option resetTriggers (gridManager s)\<rparr>"

definition stopTracking :: "player_tracker \<Rightarrow> player_tracker" where
  "stopTracking s = s\<lparr>isTracking := False\<rparr>"

definition resetTracker :: "player_tracker \<Rightarrow> player_tracker" where
  "resetTracker s =
     s\<lparr>currentTile := None, pathProgress := 0, stepsOnPath := [],
       gridManager := map_option resetTriggers (gridManager s)\<rparr>"

text \<open>A sequence of tile entries delivered to the tracker; it stops at the first error.\<close>

fun feedEntries :: "pos list \<Rightarrow> player_tracker \<Rightarrow> js_error + player_tracker" where
  "feedEntries [] s = Inr s"
| "feedEntries ((gridX, gridZ) # rest) s =
     (case handleTriggerEntered gridX gridZ s of
        Inl e \<Rightarrow> Inl e
      | Inr s1 \<Rightarrow> feedEntries rest s1)"

text \<open>The step events among the emitted ones.\<close>

fun isCorrectStep :: "event \<Rightarrow> bool" where
  "isCorrectStep (CorrectStep _ _ _) = True"
| "isCorrectStep _ = False"

fun isWrongStep :: "event \<Rightarrow> bool" where
  "isWrongStep (WrongStep _ _) = True"
| "isWrongStep _ = False"

fun isPathCompleted :: "event \<Rightarrow> bool" where
  "isPathCompleted (PathCompleted _) = True"
| "isPathCompleted _ = False"

definition isStepEvent :: "event \<Rightarrow> bool" where
  "isStepEvent ev = (isCorrectStep ev \<or> isWrongStep ev \<or> isPathCompleted ev)"

section \<open>SaveManager.js and GameStateManager.js\<close>

record save_data =
  sd_currentLevel :: int
  sd_highestLevel :: int

text \<open>\<open>getCurrentLevel\<close> of the save manager: level 1 when nothing has been loaded.\<close>

definition getCurrentLevel :: "save_data option \<Rightarrow> int" where
  "getCurrentLevel saveData = (case saveData of Some d \<Rightarrow> sd_currentLevel d | None \<Rightarrow> 1)"

record level_config =
  gridRows :: int
  gridColumns :: int
  lc_pathLength :: int
  memorizeTime :: int

definition getLevelConfig :: "int \<Rightarrow> level_config" where
  "getLevelConfig level =
     (let pathLength = BASE_PATH_LENGTH + (level - 1) * PATH_INCREMENT;
          pathLength1 = min pathLength MAX_PATH_LENGTH
      in \<lparr>gridRows = GRID_ROWS, gridColumns = GRID_COLUMNS,
          lc_pathLength = pathLength1, memorizeTime = MEMORIZE_TIME\<rparr>)"

text \<open>
  The game state, with the two collaborators \<open>setupLevel\<close> talks to: the save manager
  registered as \<open>global.PathFinder.Save\<close> (absent, or present with its save data) and
  the grid manager.
\<close>

record game_state =
  currentLevel :: int
  score :: int
  wrongSteps :: int
  memorizeTimeRemaining :: int
  isFirstGame :: bool
  currentLevelRetried :: bool
  saveManager :: "save_data option option"
  gs_gridManager :: "grid_manager option"

definition setupLevel :: "game_state \<Rightarrow> rng \<Rightarrow> js_error + (game_state \<times> rng)" where
  "setupLevel gs g =
     (let gs1 = (case saveManager gs of
                   None \<Rightarrow> gs
                 | Some saveData \<Rightarrow>
                     (let savedLevel = getCurrentLevel saveData
                      in if savedLevel \<noteq> currentLevel gs
                         then gs\<lparr>currentLevel := savedLevel\<rparr> else gs));
          levelConfig = getLevelConfig (currentLevel gs1)
      in case gs_gridManager gs1 of
           None \<Rightarrow> Inr (gs1\<lparr>memorizeTimeRemaining := memorizeTime levelConfig\<rparr>, g)
         | Some gm \<Rightarrow>
             (case generateNewPath (lc_pathLength levelConfig) gm g of
                Inl e \<Rightarrow> Inl e
              | Inr (gm1, g1) \<Rightarrow>
                  Inr (gs1\<lparr>gs_gridManager := Some gm1,
                           memorizeTimeRemaining := memorizeTime levelConfig\<rparr>, g1)))"


section \<open>Notions used to state the properties\<close>

text \<open>
  The definitions of this section are not part of the program: they name what the
  properties below say about it.
\<close>

text \<open>A position inside the grid, and one orthogonal step (Manhattan distance 1).\<close>

definition inGrid :: "int \<Rightarrow> int \<Rightarrow> pos \<Rightarrow> bool" where
  "inGrid rows columns p = isValidGridPosition (fst p) (snd p) rows columns"

definition orthogonalStep :: "pos \<Rightarrow> pos \<Rightarrow> bool" where
  "orthogonalStep a b = (\<bar>fst b - fst a\<bar> + \<bar>snd b - snd a\<bar> = 1)"

text \<open>
  The invariant of the path loop: a non-empty path of distinct cells inside the grid,
  each one step from the one before, with \<open>visited\<close> holding exactly its cells.
\<close>

definition pathInv :: "int \<Rightarrow> int \<Rightarrow> pos list \<Rightarrow> pos set \<Rightarrow> bool" where
  "pathInv rows columns p v =
     (p \<noteq> [] \<and> v = set p \<and> distinct p \<and> isValidPath p \<and> list_all (inGrid rows columns) p)"



text \<open>
  The results of the first \<open>n\<close> attempts in a row, each with the random source it
  leaves behind, and the rule by which \<open>generatePath\<close> keeps the longest result.
\<close>

fun attemptResults :: "nat \<Rightarrow> int \<Rightarrow> int \<Rightarrow> int \<Rightarrow> pos option \<Rightarrow> rng \<Rightarrow> (pos list \<times> rng) list" where
  "attemptResults 0 rows columns pathLength startPos g = []"
| "attemptResults (Suc n) rows columns pathLength startPos g =
     (case generatePathAttempt rows columns pathLength startPos g of
        Inl e \<Rightarrow> []
      | Inr (result, g1) \<Rightarrow> (result, g1) # attemptResults n rows columns pathLength startPos g1)"

definition keepLongest :: "pos list option \<Rightarrow> pos list \<Rightarrow> pos list option" where
  "keepLongest bestPath result =
     (case bestPath of
        None \<Rightarrow> Some result
      | Some best \<Rightarrow> if length result > length best then Some result else Some best)"

text \<open>
  \<open>stuckFree k\<close>: however the next \<open>k\<close> cells are chosen among the unvisited
  neighbours, the walk never reaches a cell without one.
\<close>

fun stuckFree :: "nat \<Rightarrow> int \<Rightarrow> int \<Rightarrow> pos list \<Rightarrow> bool" where
  "stuckFree 0 rows columns path = True"
| "stuckFree (Suc k) rows columns path =
     (let validNeighbors =
            filter (\<lambda>n. n \<notin> set path)
              (getNeighbors (fst (last path)) (snd (last path)) rows columns)
      in validNeighbors \<noteq> [] \<and>
         list_all (\<lambda>n. stuckFree k rows columns (path @ [n])) validNeighbors)"

text \<open>
  A grid whose arrays have the shape \<open>createGrid\<close> gives them: one row per grid row
  and one cell per column, for the tile records and for the tile objects.
\<close>

definition gridShaped :: "grid_manager \<Rightarrow> bool" where
  "gridShaped gm =
     (length (tiles gm) = nat (gm_rows gm) \<and>
      list_all (\<lambda>row. length row = nat (gm_columns gm)) (tiles gm) \<and>
      length (tileObjects gm) = nat (gm_rows gm) \<and>
      list_all (\<lambda>row. length row = nat (gm_columns gm)) (tileObjects gm))"

text \<open>A tile in the state \<open>resetTileStates\<close> leaves it in.\<close>

definition isReset :: "tile \<Rightarrow> bool" where
  "isReset t = (tile_state t = StDefault \<and> \<not> isPathTile t \<and> pathIndex t = -1)"

text \<open>\<open>n\<close> calls of the same operation in a row, stopping at the first error.\<close>

fun repeatCall :: "nat \<Rightarrow> ('s \<Rightarrow> js_error + 's) \<Rightarrow> 's \<Rightarrow> js_error + 's" where
  "repeatCall 0 f s = Inr s"
| "repeatCall (Suc n) f s = (case f s of Inl e \<Rightarrow> Inl e | Inr s1 \<Rightarrow> repeatCall n f s1)"

text \<open>Two tracker states with the same armed flag, mode and registered callbacks.\<close>

definition sameSetup :: "player_tracker \<Rightarrow> player_tracker \<Rightarrow> bool" where
  "sameSetup s s1 =
     (isTracking s1 = isTracking s \<and> skipPathCheck s1 = skipPathCheck s \<and>
      cb_onTileEntered s1 = cb_onTileEntered s \<and> cb_onTileExited s1 = cb_onTileExited s \<and>
      cb_onCorrectStep s1 = cb_onCorrectStep s \<and> cb_onWrongStep s1 = cb_onWrongStep s \<and>
      cb_onPathCompleted s1 = cb_onPathCompleted s)"

text \<open>The step events a run of the tracker ends with (none when it raised).\<close>

definition stepEvents :: "js_error + player_tracker \<Rightarrow> event list" where
  "stepEvents r = (case r of Inl e \<Rightarrow> [] | Inr s \<Rightarrow> filter isStepEvent (emitted s))"

section \<open>Concrete states\<close>

text \<open>
  The states the witnesses are evaluated on: the grid manager as the scene configures
  it (default size, prefabs assigned, an untransformed parent), the grid placed at the
  origin, the grid with a round's path installed, and a tracker with the three step
  callbacks registered, before and after \<open>startTracking\<close>.
\<close>

definition sceneGridManager :: grid_manager where
  "sceneGridManager =
     \<lparr>gm_rows = DEFAULT_ROWS, gm_columns = DEFAULT_COLUMNS,
      tileSize = TILE_SIZE, tileGap = TILE_GAP, origin = None,
      tiles = [], tileObjects = [], triggerObjects = [],
      gm_path = [], isRevealed = False, isInitialized = False,
      gridParent = Some \<lparr>tr_worldPosition = \<lparr>vx = 0, vy = 0, vz = 0\<rparr>,
                         tr_invRotate = (\<lambda>v. v)\<rparr>,
      tilePrefab = True, triggerPrefab = Some True, onTriggerEnteredCallback = True\<rparr>"

definition placedGrid :: grid_manager where
  "placedGrid =
     (case initialize (Some \<lparr>vx = 0, vy = 0, vz = 0\<rparr>) None None sceneGridManager of
        Inr gm \<Rightarrow> gm
      | Inl e \<Rightarrow> sceneGridManager)"

definition roundGrid :: grid_manager where
  "roundGrid =
     (case generateNewPath 5 placedGrid (\<lambda>n. 0) of
        Inr (gm, g) \<Rightarrow> gm
      | Inl e \<Rightarrow> placedGrid)"

definition sceneTracker :: player_tracker where
  "sceneTracker =
     \<lparr>isTracking = False, floorY = 0, pathProgress = 0, stepsOnPath = [], currentTile = None,
      cb_onTileEntered = False, cb_onTileExited = False, cb_onCorrectStep = True,
      cb_onWrongStep = True, cb_onPathCompleted = True,
      gridManager = Some roundGrid, skipPathCheck = False, emitted = []\<rparr>"

definition armedTracker :: player_tracker where
  "armedTracker = startTracking sceneTracker"

text \<open>
  A game state whose local level counter (1) disagrees with the saved level (3), a
  grid on which every trigger has fired, and an overlap of a collider that is not the
  camera's.
\<close>

definition sceneGame :: game_state where
  "sceneGame =
     \<lparr>currentLevel = 1, score = 0, wrongSteps = 0, memorizeTimeRemaining = 0,
      isFirstGame = True, currentLevelRetried = False,
      saveManager = Some (Some \<lparr>sd_currentLevel = 3, sd_highestLevel = 3\<rparr>),
      gs_gridManager = Some placedGrid\<rparr>"




section \<open>The random helpers rearrange and stay in range\<close>

lemma nextRandom_split: "nextRandom g = (g 0, \<lambda>n. g (Suc n))"
  by (simp add: nextRandom_def)

lemma randomInt_range:
  assumes "0 \<le> hi" "randomInt 0 hi g = (j, g1)"
  shows "0 \<le> j \<and> j \<le> hi"
proof -
  have pos: "0 < nat (hi + 1)" using assms(1) by simp
  have "g 0 mod nat (hi + 1) < nat (hi + 1)" using pos by (rule mod_less_divisor)
  then have lt: "int (g 0 mod nat (hi + 1)) < hi + 1" using assms(1) by linarith
  have "j = int (g 0 mod nat (hi + 1))"
    using assms by (simp add: randomInt_def nextRandom_def)
  with lt show ?thesis by simp
qed

lemma shuffleFrom_set_length:
  "i < length xs \<Longrightarrow>
     set (fst (shuffleFrom i xs g)) = set xs \<and> length (fst (shuffleFrom i xs g)) = length xs"
proof (induction i arbitrary: xs g)
  case 0
  then show ?case by simp
next
  case (Suc i)
  obtain j g1 where r: "randomInt 0 (int (Suc i)) g = (j, g1)"
    by (cases "randomInt 0 (int (Suc i)) g")
  then have j: "0 \<le> j" "j \<le> int (Suc i)"
    using randomInt_range[of "int (Suc i)" g j g1] by simp_all
  let ?ys = "xs[Suc i := xs ! nat j, nat j := xs ! Suc i]"
  have nj: "nat j < length xs" using j Suc.prems by linarith
  have "set ?ys = set xs" using set_swap[OF Suc.prems nj] .
  moreover have "length ?ys = length xs" by simp
  moreover have "i < length ?ys" using Suc.prems by simp
  ultimately show ?case
    using Suc.IH[of ?ys g1] r by (simp add: Let_def)
qed

lemma shuffleArray_set_length:
  "set (fst (shuffleArray xs g)) = set xs \<and> length (fst (shuffleArray xs g)) = length xs"
proof (cases xs)
  case Nil
  then show ?thesis by (simp add: shuffleArray_def)
next
  case (Cons a as)
  then show ?thesis
    using shuffleFrom_set_length[of "length xs - 1" xs g] by (simp add: shuffleArray_def)
qed

lemma sortInsert_set_length:
  "set (fst (sortInsert cmp a bs g)) = insert a (set bs) \<and>
   length (fst (sortInsert cmp a bs g)) = Suc (length bs)"
proof (induction bs arbitrary: g)
  case Nil
  then show ?case by simp
next
  case (Cons b bs)
  obtain c g1 where c: "cmp a b g = (c, g1)" by (cases "cmp a b g")
  obtain rest g2 where r: "sortInsert cmp a bs g1 = (rest, g2)"
    by (cases "sortInsert cmp a bs g1")
  with Cons.IH[of g1] have "set rest = insert a (set bs)" "length rest = Suc (length bs)"
    by simp_all
  then show ?case using c r by (auto simp: Let_def)
qed

lemma arraySort_set_length:
  "set (fst (arraySort cmp xs g)) = set xs \<and> length (fst (arraySort cmp xs g)) = length xs"
proof (induction xs arbitrary: g)
  case Nil
  then show ?case by simp
next
  case (Cons a as)
  obtain sorted g1 where s: "arraySort cmp as g = (sorted, g1)"
    by (cases "arraySort cmp as g")
  with Cons.IH[of g] have "set sorted = set as" "length sorted = length as" by simp_all
  then show ?case
    using s sortInsert_set_length[of cmp a sorted g1] by (simp add: Let_def)
qed

section \<open>Neighbours, valid paths and edge positions\<close>

lemma getNeighbors_iff:
  "n \<in> set (getNeighbors x z rows columns) \<longleftrightarrow>
     inGrid rows columns n \<and> n \<in> {(x, z + 1), (x, z - 1), (x - 1, z), (x + 1, z)}"
  by (auto simp: getNeighbors_def directions_def inGrid_def)

lemma isValidPath_Cons2:
  "isValidPath (a # b # rest) \<longleftrightarrow> orthogonalStep a b \<and> isValidPath (b # rest)"
  by (auto simp: orthogonalStep_def Let_def)

lemma isValidPath_snoc:
  "path \<noteq> [] \<Longrightarrow> isValidPath (path @ [n]) \<longleftrightarrow> isValidPath path \<and> orthogonalStep (last path) n"
proof (induction path)
  case Nil
  then show ?case by simp
next
  case (Cons a path)
  show ?case
  proof (cases path)
    case Nil
    then show ?thesis by (simp add: isValidPath_Cons2 del: isValidPath.simps(1))
  next
    case (Cons b rest)
    with Cons.IH show ?thesis by (simp add: isValidPath_Cons2 del: isValidPath.simps(1))
  qed
qed

lemma isValidPath_butlast: "isValidPath path \<Longrightarrow> isValidPath (butlast path)"
proof (induction path)
  case Nil
  then show ?case by simp
next
  case (Cons a path)
  show ?case
  proof (cases path)
    case Nil
    then show ?thesis by simp
  next
    case c1: (Cons b rest)
    show ?thesis
    proof (cases rest)
      case Nil
      with c1 show ?thesis by simp
    next
      case (Cons c rest2)
      with c1 Cons.IH Cons.prems show ?thesis
        by (simp add: isValidPath_Cons2 del: isValidPath.simps(1))
    qed
  qed
qed


lemma getNeighbors_adjacent:
  assumes "n \<in> set (getNeighbors (fst c) (snd c) rows columns)"
  shows "orthogonalStep c n" and "inGrid rows columns n" and "n \<noteq> c"
  using assms by (cases c; cases n; auto simp: getNeighbors_iff orthogonalStep_def)+


lemma edgePositions_nonempty:
  assumes "1 \<le> rows" "1 \<le> columns"
  shows "edgePositions rows columns \<noteq> []"
proof -
  have "(0, 0) \<in> set (edgePositions rows columns)"
    using assms by (auto simp: edgePositions_def)
  then show ?thesis by auto
qed

lemma getRandomEdgePosition_some:
  assumes "edgePositions rows columns \<noteq> []"
  shows "\<exists>p g1. getRandomEdgePosition rows columns g = (Some p, g1) \<and> p \<in> set (edgePositions rows columns)"
proof -
  let ?edges = "edgePositions rows columns"
  obtain index g1 where r: "randomInt 0 (int (length ?edges) - 1) g = (index, g1)"
    by (cases "randomInt 0 (int (length ?edges) - 1) g")
  have "0 \<le> int (length ?edges) - 1" using assms by (cases ?edges) simp_all
  from randomInt_range[OF this r] have "0 \<le> index" "nat index < length ?edges" by linarith+
  then show ?thesis using r by (simp add: getRandomEdgePosition_def Let_def)
qed

section \<open>The path loop\<close>

text \<open>
  Whichever branch orders the unvisited neighbours, the cell taken is one of them. The
  rule below is the invariant rule of the loop: a property that holds at the start and
  is kept by backtracking, by restarting and by extending holds of the result, together
  with the negated loop condition.
\<close>

lemma orderedNeighbors_head:
  assumes "vn \<noteq> []"
  shows "\<exists>nextPos rest g1.
           (if c then arraySort cmp vn g else shuffleArray vn g) = (nextPos # rest, g1) \<and>
           nextPos \<in> set vn"
proof -
  obtain ordered g1 where o: "(if c then arraySort cmp vn g else shuffleArray vn g) = (ordered, g1)"
    by (cases "if c then arraySort cmp vn g else shuffleArray vn g")
  have "set ordered = set vn \<and> length ordered = length vn"
    using o arraySort_set_length[of cmp vn g] shuffleArray_set_length[of vn g]
    by (cases c) simp_all
  then obtain nextPos rest where "ordered = nextPos # rest" "nextPos \<in> set vn"
    using assms by (cases ordered) auto
  with o show ?thesis by blast
qed

lemma generatePathLoop_rule:
  assumes start: "I path visited attempts"
    and edges: "edgePositions rows columns \<noteq> []"
    and nonempty: "\<And>p v a. I p v a \<Longrightarrow> p \<noteq> []"
    and backtrack: "\<And>p v a. I p v a \<Longrightarrow> int (length p) < pathLength \<Longrightarrow> a < pathLength * 100 \<Longrightarrow>
        filter (\<lambda>n. n \<notin> v) (getNeighbors (fst (last p)) (snd (last p)) rows columns) = [] \<Longrightarrow>
        1 < length p \<Longrightarrow> I (butlast p) (v - {last p}) (a + 1)"
    and restart: "\<And>p v a sp. I p v a \<Longrightarrow> int (length p) < pathLength \<Longrightarrow> a < pathLength * 100 \<Longrightarrow>
        filter (\<lambda>n. n \<notin> v) (getNeighbors (fst (last p)) (snd (last p)) rows columns) = [] \<Longrightarrow>
        length p \<le> 1 \<Longrightarrow> sp \<in> set (edgePositions rows columns) \<Longrightarrow> I [sp] {sp} (a + 1)"
    and extend: "\<And>p v a n. I p v a \<Longrightarrow> int (length p) < pathLength \<Longrightarrow> a < pathLength * 100 \<Longrightarrow>
        n \<in> set (getNeighbors (fst (last p)) (snd (last p)) rows columns) \<Longrightarrow> n \<notin> v \<Longrightarrow>
        I (p @ [n]) (insert n v) (a + 1)"
  shows "\<exists>p v a g1. generatePathLoop rows columns pathLength path visited attempts g = Inr (p, g1) \<and>
           I p v a \<and> \<not> (int (length p) < pathLength \<and> a < pathLength * 100)"
  using start
proof (induction "nat (pathLength * 100 - attempts)" arbitrary: path visited attempts g rule: less_induct)
  case less
  let ?vn = "filter (\<lambda>n. n \<notin> visited) (getNeighbors (fst (last path)) (snd (last path)) rows columns)"
  show ?case
  proof (cases "int (length path) < pathLength \<and> attempts < pathLength * 100")
    case False
    then have "generatePathLoop rows columns pathLength path visited attempts g = Inr (path, g)"
      by (subst generatePathLoop.simps) auto
    with False less.prems show ?thesis by blast
  next
    case True
    have pne: "path \<noteq> []" using nonempty less.prems by blast
    have dec: "nat (pathLength * 100 - (attempts + 1)) < nat (pathLength * 100 - attempts)"
      using True by linarith
    show ?thesis
    proof (cases "?vn = []")
      case vnil: True
      show ?thesis
      proof (cases "1 < length path")
        case long: True
        have step: "generatePathLoop rows columns pathLength path visited attempts g =
                    generatePathLoop rows columns pathLength (butlast path)
                      (visited - {last path}) (attempts + 1) g"
          using True pne vnil long by (subst generatePathLoop.simps) (simp add: Let_def)
        have "I (butlast path) (visited - {last path}) (attempts + 1)"
          using backtrack[OF less.prems _ _ vnil long] True by simp
        from less.hyps[OF dec this] step show ?thesis by simp
      next
        case short: False
        obtain sp g1 where e: "getRandomEdgePosition rows columns g = (Some sp, g1)"
          and sp: "sp \<in> set (edgePositions rows columns)"
          using getRandomEdgePosition_some[OF edges, of g] by blast
        have step: "generatePathLoop rows columns pathLength path visited attempts g =
                    generatePathLoop rows columns pathLength [sp] {sp} (attempts + 1) g1"
          using True pne vnil short e by (subst generatePathLoop.simps) (simp add: Let_def)
        have "I [sp] {sp} (attempts + 1)"
          using restart[OF less.prems _ _ vnil _ sp] True short by simp
        from less.hyps[OF dec this] step show ?thesis by simp
      qed
    next
      case vne: False
      obtain nextPos rest g1 where
        o: "(if pathLength \<ge> 23
             then arraySort (warnsdorffCompare rows columns visited) ?vn g
             else shuffleArray ?vn g) = (nextPos # rest, g1)"
        and n: "nextPos \<in> set ?vn"
        using orderedNeighbors_head[OF vne] by blast
      have step: "generatePathLoop rows columns pathLength path visited attempts g =
                  generatePathLoop rows columns pathLength (path @ [nextPos])
                    (insert nextPos visited) (attempts + 1) g1"
        using True pne vne o by (subst generatePathLoop.simps) (simp add: Let_def)
      have "I (path @ [nextPos]) (insert nextPos visited) (attempts + 1)"
        using extend[OF less.prems, of nextPos] True n by simp
      from less.hyps[OF dec this] step show ?thesis by simp
    qed
  qed
qed

lemma pathInv_butlast:
  assumes "pathInv rows columns p v" "1 < length p"
  shows "pathInv rows columns (butlast p) (v - {last p})"
proof -
  from assms have pne: "p \<noteq> []" and v: "v = set p" and d: "distinct p"
    and vp: "isValidPath p" and g: "list_all (inGrid rows columns) p"
    by (simp_all add: pathInv_def)
  have sp: "p = butlast p @ [last p]" using pne by simp
  have "distinct (butlast p @ [last p])" using d sp by simp
  then have nl: "last p \<notin> set (butlast p)" by simp
  have "set p = insert (last p) (set (butlast p))" using sp
    by (metis Un_insert_right append_Nil2 list.simps(15) set_append)
  then have "v - {last p} = set (butlast p)" using v nl by auto
  moreover have "butlast p \<noteq> []" using assms(2) by (cases p) auto
  moreover have "distinct (butlast p)" using d by (rule distinct_butlast)
  moreover have "isValidPath (butlast p)" using vp by (rule isValidPath_butlast)
  moreover have "list_all (inGrid rows columns) (butlast p)"
    using g by (auto simp: list_all_iff dest: in_set_butlastD)
  ultimately show ?thesis by (simp add: pathInv_def)
qed

lemma pathInv_single: "inGrid rows columns sp \<Longrightarrow> pathInv rows columns [sp] {sp}"
  by (simp add: pathInv_def)

lemma pathInv_extend:
  assumes "pathInv rows columns p v"
    "n \<in> set (getNeighbors (fst (last p)) (snd (last p)) rows columns)" "n \<notin> v"
  shows "pathInv rows columns (p @ [n]) (insert n v)"
  using assms getNeighbors_adjacent[OF assms(2)]
  by (auto simp: pathInv_def isValidPath_snoc)


lemma getNeighbors_nonempty:
  assumes "inGrid rows columns c" "2 \<le> rows * columns"
  shows "getNeighbors (fst c) (snd c) rows columns \<noteq> []"
proof -
  obtain x z where c: "c = (x, z)" by (cases c)
  from assms(1) c have b: "0 \<le> x" "x < columns" "0 \<le> z" "z < rows"
    by (simp_all add: inGrid_def isValidGridPosition_def)
  have "2 \<le> columns \<or> 2 \<le> rows"
  proof (rule ccontr)
    assume "\<not> (2 \<le> columns \<or> 2 \<le> rows)"
    with b have "columns = 1" "rows = 1" by linarith+
    with assms(2) show False by simp
  qed
  then consider "x + 1 < columns" | "0 \<le> x - 1" | "z + 1 < rows" | "0 \<le> z - 1"
    using b by linarith
  then have "\<exists>n. n \<in> set (getNeighbors x z rows columns)"
  proof cases
    case 1
    then have "(x + 1, z) \<in> set (getNeighbors x z rows columns)"
      using b by (simp add: getNeighbors_iff inGrid_def isValidGridPosition_def)
    then show ?thesis by blast
  next
    case 2
    then have "(x - 1, z) \<in> set (getNeighbors x z rows columns)"
      using b by (simp add: getNeighbors_iff inGrid_def isValidGridPosition_def)
    then show ?thesis by blast
  next
    case 3
    then have "(x, z + 1) \<in> set (getNeighbors x z rows columns)"
      using b by (simp add: getNeighbors_iff inGrid_def isValidGridPosition_def)
    then show ?thesis by blast
  next
    case 4
    then have "(x, z - 1) \<in> set (getNeighbors x z rows columns)"
      using b by (simp add: getNeighbors_iff inGrid_def isValidGridPosition_def)
    then show ?thesis by blast
  qed
  then show ?thesis using c by auto
qed

text \<open>With a start inside the grid the restart branch is never taken.\<close>

lemma generatePathLoop_keeps_start:
  assumes "pathInv rows columns path visited" "hd path = s" "pathLength \<le> rows * columns"
    "1 \<le> rows" "1 \<le> columns"
  shows "\<exists>p g1. generatePathLoop rows columns pathLength path visited attempts g = Inr (p, g1) \<and>
           pathInv rows columns p (set p) \<and> hd p = s"
proof -
  let ?I = "\<lambda>p v (a::int). pathInv rows columns p v \<and> hd p = s"
  have "\<exists>p v a g1. generatePathLoop rows columns pathLength path visited attempts g = Inr (p, g1) \<and>
           ?I p v a \<and> \<not> (int (length p) < pathLength \<and> a < pathLength * 100)"
  proof (rule generatePathLoop_rule)
    show "?I path visited attempts" using assms(1,2) by simp
    show "edgePositions rows columns \<noteq> []" using assms(4,5) by (rule edgePositions_nonempty)
  next
    fix p v a assume "?I p v a"
    then show "p \<noteq> []" by (simp add: pathInv_def)
  next
    fix p v and a :: int
    assume i: "?I p v a" and l: "1 < length p"
    then have "pathInv rows columns (butlast p) (v - {last p})" using pathInv_butlast by blast
    moreover have "hd (butlast p) = hd p" using l by (cases p) auto
    ultimately show "?I (butlast p) (v - {last p}) (a + 1)" using i by simp
  next
    fix p v and a :: int and sp
    assume i: "?I p v a" and lt: "int (length p) < pathLength"
      and stuck: "filter (\<lambda>n. n \<notin> v) (getNeighbors (fst (last p)) (snd (last p)) rows columns) = []"
      and short: "length p \<le> 1"
    from i have pne: "p \<noteq> []" and v: "v = set p" and g: "list_all (inGrid rows columns) p"
      by (simp_all add: pathInv_def)
    from pne short obtain c where p: "p = [c]" by (cases p) auto
    have "2 \<le> rows * columns" using lt p assms(3) by simp
    moreover have "inGrid rows columns c" using g p by simp
    ultimately have "getNeighbors (fst c) (snd c) rows columns \<noteq> []"
      by (rule getNeighbors_nonempty[rotated])
    then obtain n where n: "n \<in> set (getNeighbors (fst c) (snd c) rows columns)"
      by (cases "getNeighbors (fst c) (snd c) rows columns") auto
    then have "n \<noteq> c" by (rule getNeighbors_adjacent)
    then have "n \<in> set (filter (\<lambda>n. n \<notin> v) (getNeighbors (fst (last p)) (snd (last p)) rows columns))"
      using n v p by simp
    with stuck have False by simp
    then show "?I [sp] {sp} (a + 1)" ..
  next
    fix p v and a :: int and n
    assume i: "?I p v a"
      and n: "n \<in> set (getNeighbors (fst (last p)) (snd (last p)) rows columns)" "n \<notin> v"
    then have "pathInv rows columns (p @ [n]) (insert n v)" using pathInv_extend by blast
    moreover have "hd (p @ [n]) = hd p" using i by (simp add: pathInv_def)
    ultimately show "?I (p @ [n]) (insert n v) (a + 1)" using i by simp
  qed
  then show ?thesis by (auto simp: pathInv_def)
qed

text \<open>An attempt never fails on a grid with a cell, whatever the start.\<close>

lemma generatePathLoop_total:
  assumes "path \<noteq> []" "1 \<le> rows" "1 \<le> columns"
  shows "\<exists>p g1. generatePathLoop rows columns pathLength path visited attempts g = Inr (p, g1) \<and> p \<noteq> []"
proof -
  let ?I = "\<lambda>(p::pos list) (v::pos set) (a::int). p \<noteq> []"
  have "\<exists>p v a g1. generatePathLoop rows columns pathLength path visited attempts g = Inr (p, g1) \<and>
           ?I p v a \<and> \<not> (int (length p) < pathLength \<and> a < pathLength * 100)"
  proof (rule generatePathLoop_rule)
    show "path \<noteq> []" by (rule assms(1))
    show "edgePositions rows columns \<noteq> []" using assms(2,3) by (rule edgePositions_nonempty)
  next
    fix p :: "pos list" assume "1 < length p"
    then show "butlast p \<noteq> []" by (cases p) auto
  qed simp_all
  then show ?thesis by blast
qed

lemma generatePathAttempt_total:
  assumes "1 \<le> rows" "1 \<le> columns"
  shows "\<exists>p g1. generatePathAttempt rows columns pathLength startPos g = Inr (p, g1) \<and> p \<noteq> []"
proof (cases startPos)
  case None
  obtain sp g0 where e: "getRandomEdgePosition rows columns g = (Some sp, g0)"
    using getRandomEdgePosition_some[OF edgePositions_nonempty[OF assms], of g] by blast
  show ?thesis
    using generatePathLoop_total[of "[sp]" rows columns pathLength "{sp}" 0 g0] assms None e
    by (simp add: generatePathAttempt_def)
next
  case (Some sp)
  show ?thesis
    using generatePathLoop_total[of "[sp]" rows columns pathLength "{sp}" 0 g] assms Some
    by (simp add: generatePathAttempt_def)
qed


lemma generatePathAttempt_keeps_start:
  assumes "1 \<le> rows" "1 \<le> columns" "inGrid rows columns sp" "pathLength \<le> rows * columns"
  shows "\<exists>p g1. generatePathAttempt rows columns pathLength (Some sp) g = Inr (p, g1) \<and>
           pathInv rows columns p (set p) \<and> hd p = sp"
proof -
  have "pathInv rows columns [sp] {sp}" using assms(3) by (rule pathInv_single)
  from generatePathLoop_keeps_start[OF this _ assms(4,1,2), of sp 0 g]
  show ?thesis by (simp add: generatePathAttempt_def)
qed

section \<open>The retry loop\<close>

lemma generatePathRetries_pred:
  assumes "\<And>g. \<exists>p g1. generatePathAttempt rows columns L sp g = Inr (p, g1) \<and> P p"
    and "case best of None \<Rightarrow> 0 < n | Some b \<Rightarrow> P b"
  shows "\<exists>p g1. generatePathRetries n rows columns L sp best g = Inr (p, g1) \<and> P p"
  using assms(2)
proof (induction n arbitrary: best g)
  case 0
  then show ?case by (cases best) simp_all
next
  case (Suc n)
  obtain r g1 where a: "generatePathAttempt rows columns L sp g = Inr (r, g1)" and r: "P r"
    using assms(1)[of g] by blast
  show ?case
  proof (cases "L \<le> int (length r)")
    case True
    with a r show ?thesis by simp
  next
    case False
    let ?best = "case best of None \<Rightarrow> Some r
                 | Some b \<Rightarrow> if length r > length b then Some r else Some b"
    have "case ?best of None \<Rightarrow> 0 < n | Some b \<Rightarrow> P b"
      using r Suc.prems by (cases best) simp_all
    from Suc.IH[OF this, of g1] a False show ?thesis by simp
  qed
qed

lemma pathInv_length:
  assumes "pathInv rows columns p v"
  shows "int (length p) \<le> rows * columns"
proof -
  from assms have d: "distinct p" and g: "list_all (inGrid rows columns) p" and pne: "p \<noteq> []"
    by (simp_all add: pathInv_def)
  have sub: "set p \<subseteq> {0..<columns} \<times> {0..<rows}"
    using g by (auto simp: list_all_iff inGrid_def isValidGridPosition_def)
  from pne obtain c where "c \<in> set p" by (cases p) auto
  with sub have pos: "0 < columns" "0 < rows" by auto
  have "length p = card (set p)" using d by (simp add: distinct_card)
  also have "\<dots> \<le> card ({0..<columns} \<times> {0..<rows})"
    using sub by (intro card_mono) auto
  also have "\<dots> = nat columns * nat rows" by (simp add: card_cartesian_product)
  finally have "length p \<le> nat columns * nat rows" .
  then have "int (length p) \<le> int (nat columns) * int (nat rows)"
    by (metis of_nat_mono of_nat_mult)
  also have "\<dots> = rows * columns" using pos by (simp add: mult.commute)
  finally show ?thesis .
qed

lemma attemptResults_length:
  assumes "1 \<le> rows" "1 \<le> columns"
  shows "length (attemptResults n rows columns L sp g) = n"
proof (induction n arbitrary: g)
  case 0
  then show ?case by simp
next
  case (Suc n)
  obtain p g1 where "generatePathAttempt rows columns L sp g = Inr (p, g1)"
    using generatePathAttempt_total[OF assms, of L sp g] by blast
  with Suc.IH[of g1] show ?case by simp
qed

lemma attemptResults_nonempty:
  assumes "1 \<le> rows" "1 \<le> columns" "r \<in> set (attemptResults n rows columns L sp g)"
  shows "fst r \<noteq> []"
  using assms(3)
proof (induction n arbitrary: g)
  case 0
  then show ?case by simp
next
  case (Suc n)
  obtain p g1 where a: "generatePathAttempt rows columns L sp g = Inr (p, g1)" and p: "p \<noteq> []"
    using generatePathAttempt_total[OF assms(1,2), of L sp g] by blast
  with Suc.prems have "r = (p, g1) \<or> r \<in> set (attemptResults n rows columns L sp g1)" by simp
  then show ?case using p Suc.IH[of g1] by auto
qed

lemma generatePathRetries_char:
  assumes "length (attemptResults n rows columns L sp g) = n"
  shows "generatePathRetries n rows columns L sp best g =
     (case find (\<lambda>r. L \<le> int (length (fst r))) (attemptResults n rows columns L sp g) of
        Some hit \<Rightarrow> Inr hit
      | None \<Rightarrow>
          (case foldl keepLongest best (map fst (attemptResults n rows columns L sp g)) of
             None \<Rightarrow> Inl TypeError
           | Some b \<Rightarrow> Inr (b, last (g # map snd (attemptResults n rows columns L sp g)))))"
  using assms
proof (induction n arbitrary: best g)
  case 0
  then show ?case by (cases best) simp_all
next
  case (Suc n)
  show ?case
  proof (cases "generatePathAttempt rows columns L sp g")
    case (Inl e)
    with Suc.prems show ?thesis by simp
  next
    case (Inr rg)
    obtain r g1 where rg: "rg = (r, g1)" by (cases rg)
    with Inr Suc.prems have len: "length (attemptResults n rows columns L sp g1) = n" by simp
    show ?thesis
    proof (cases "L \<le> int (length r)")
      case True
      with Inr rg show ?thesis by simp
    next
      case False
      have k: "(case best of None \<Rightarrow> Some r
                | Some b \<Rightarrow> if length r > length b then Some r else Some b) = keepLongest best r"
        by (simp add: keepLongest_def)
      have ar: "attemptResults (Suc n) rows columns L sp g =
                (r, g1) # attemptResults n rows columns L sp g1"
        using Inr rg by simp
      have "generatePathRetries (Suc n) rows columns L sp best g =
            generatePathRetries n rows columns L sp (keepLongest best r) g1"
        using Inr rg False k by simp
      also note Suc.IH[OF len, of "keepLongest best r"]
      finally show ?thesis
        unfolding ar using False by (simp cong: option.case_cong)
    qed
  qed
qed

lemma foldl_keepLongest:
  assumes "rs \<noteq> [] \<or> best \<noteq> None"
  shows "\<exists>p. foldl keepLongest best rs = Some p \<and> (p \<in> set rs \<or> best = Some p) \<and>
              (\<forall>r\<in>set rs. length r \<le> length p) \<and> (\<forall>b. best = Some b \<longrightarrow> length b \<le> length p)"
  using assms
proof (induction rs arbitrary: best)
  case Nil
  then show ?case by auto
next
  case (Cons r rs)
  have "rs \<noteq> [] \<or> keepLongest best r \<noteq> None" by (cases best) (simp_all add: keepLongest_def)
  from Cons.IH[OF this] obtain p where
    p: "foldl keepLongest (keepLongest best r) rs = Some p"
       "p \<in> set rs \<or> keepLongest best r = Some p"
       "\<forall>q\<in>set rs. length q \<le> length p"
       "\<forall>b. keepLongest best r = Some b \<longrightarrow> length b \<le> length p"
    by blast
  have "p \<in> set (r # rs) \<or> best = Some p"
    using p(2) by (cases best) (auto simp: keepLongest_def split: if_splits)
  moreover have "length r \<le> length p"
    using p(4) by (cases best) (auto simp: keepLongest_def split: if_splits)
  moreover have "\<forall>b. best = Some b \<longrightarrow> length b \<le> length p"
    using p(4) by (cases best) (auto simp: keepLongest_def split: if_splits)
  ultimately show ?case using p(1,3) by auto
qed

section \<open>The walk from the near row of the 5 by 5 grid\<close>

lemma stuckFree_near_row_5x5: "stuckFree 4 5 5 [(2, 4)]"
  by code_simp

lemma generatePathLoop_stuckFree:
  assumes sf: "stuckFree (nat (pathLength - int (length path))) rows columns path"
    and init: "path \<noteq> []" "visited = set path" "attempts = int (length path) - 1"
      "int (length path) \<le> pathLength" "isValidPath path" "hd path = s"
    and grid: "1 \<le> rows" "1 \<le> columns"
  shows "\<exists>p g1. generatePathLoop rows columns pathLength path visited attempts g = Inr (p, g1) \<and>
           int (length p) = pathLength \<and> isValidPath p \<and> hd p = s"
proof -
  let ?I = "\<lambda>p v a. stuckFree (nat (pathLength - int (length p))) rows columns p \<and> p \<noteq> [] \<and>
              v = set p \<and> a = int (length p) - 1 \<and> int (length p) \<le> pathLength \<and>
              isValidPath p \<and> hd p = s"
  have stuck_False: "False"
    if i: "?I p v a" and lt: "int (length p) < pathLength"
      and st: "filter (\<lambda>n. n \<notin> v) (getNeighbors (fst (last p)) (snd (last p)) rows columns) = []"
    for p v a
  proof -
    obtain k where k: "nat (pathLength - int (length p)) = Suc k"
      using lt by (cases "nat (pathLength - int (length p))") auto
    with i have "stuckFree (Suc k) rows columns p" by simp
    then show False using st i by (simp add: Let_def)
  qed
  have "\<exists>p v a g1. generatePathLoop rows columns pathLength path visited attempts g = Inr (p, g1) \<and>
           ?I p v a \<and> \<not> (int (length p) < pathLength \<and> a < pathLength * 100)"
  proof (rule generatePathLoop_rule)
    show "?I path visited attempts" using sf init by simp
    show "edgePositions rows columns \<noteq> []" using grid by (rule edgePositions_nonempty)
  next
    fix p v a assume "?I p v a"
    then show "p \<noteq> []" by simp
  next
    fix p v a
    assume "?I p v a" "int (length p) < pathLength"
      "filter (\<lambda>n. n \<notin> v) (getNeighbors (fst (last p)) (snd (last p)) rows columns) = []"
    then have False by (rule stuck_False)
    then show "?I (butlast p) (v - {last p}) (a + 1)" ..
  next
    fix p v a sp
    assume "?I p v a" "int (length p) < pathLength"
      "filter (\<lambda>n. n \<notin> v) (getNeighbors (fst (last p)) (snd (last p)) rows columns) = []"
    then have False by (rule stuck_False)
    then show "?I [sp] {sp} (a + 1)" ..
  next
    fix p v a n
    assume i: "?I p v a" and lt: "int (length p) < pathLength"
      and n: "n \<in> set (getNeighbors (fst (last p)) (snd (last p)) rows columns)" "n \<notin> v"
    obtain k where k: "nat (pathLength - int (length p)) = Suc k"
      using lt by (cases "nat (pathLength - int (length p))") auto
    then have k': "nat (pathLength - int (length (p @ [n]))) = k" by simp
    from i k have "stuckFree (Suc k) rows columns p" by simp
    then have "stuckFree k rows columns (p @ [n])"
      using n i by (cases n) (auto simp: Let_def list_all_iff)
    moreover have "isValidPath (p @ [n])"
      using i getNeighbors_adjacent(1)[OF n(1)] by (simp add: isValidPath_snoc)
    ultimately show "?I (p @ [n]) (insert n v) (a + 1)"
      using i lt k' by simp
  qed
  then obtain p v a g1 where
    r: "generatePathLoop rows columns pathLength path visited attempts g = Inr (p, g1)"
    and i: "?I p v a" and ex: "\<not> (int (length p) < pathLength \<and> a < pathLength * 100)"
    by blast
  from i have "a < pathLength * 100" by linarith
  with ex i have "int (length p) = pathLength" by linarith
  with r i show ?thesis by blast
qed

lemma generatePathRetries_first:
  assumes "0 < n" "generatePathAttempt rows columns L sp g = Inr (p, g1)" "L \<le> int (length p)"
  shows "generatePathRetries n rows columns L sp best g = Inr (p, g1)"
  using assms by (cases n) simp_all

lemma generatePathFromBottom_5x5:
  "\<exists>p g1. generatePathFromBottom 5 5 5 g = Inr (p, g1) \<and> length p = 5 \<and> isValidPath p \<and> hd p = (2, 4)"
proof -
  have "\<exists>p g1. generatePathLoop 5 5 5 [(2, 4)] {(2, 4)} 0 g = Inr (p, g1) \<and>
           int (length p) = 5 \<and> isValidPath p \<and> hd p = (2, 4)"
    by (rule generatePathLoop_stuckFree) (simp_all add: stuckFree_near_row_5x5)
  then obtain p g1 where a: "generatePathAttempt 5 5 5 (Some (2, 4)) g = Inr (p, g1)"
    and p: "int (length p) = 5" "isValidPath p" "hd p = (2, 4)"
    by (auto simp: generatePathAttempt_def)
  have "generatePathRetries 10 5 5 5 (Some (2, 4)) None g = Inr (p, g1)"
    using a p(1) by (intro generatePathRetries_first) simp_all
  then have "generatePathFromBottom 5 5 5 g = Inr (p, g1)"
    by (simp add: generatePathFromBottom_def generatePath_def MAX_RETRIES_def)
  with p show ?thesis by auto
qed

subsection \<open>The walk from an arbitrary start position\<close>






text \<open>
  A start position outside the grid is not rejected: with a requested length of 1 it is
  returned as the whole path.
\<close>

lemma generatePath_start_outside:
  "generatePath 5 5 1 (Some (7, 7)) g = Inr ([(7, 7)], g)"
proof -
  have "generatePathAttempt 5 5 1 (Some (7, 7)) g = Inr ([(7, 7)], g)"
    by (simp add: generatePathAttempt_def generatePathLoop.simps)
  then have "generatePathRetries 10 5 5 1 (Some (7, 7)) None g = Inr ([(7, 7)], g)"
    by (intro generatePathRetries_first) simp_all
  then show ?thesis by (simp add: generatePath_def MAX_RETRIES_def)
qed


section \<open>The tile arrays of the grid\<close>

lemma cellAt_shaped:
  assumes "length array = nat rows" "list_all (\<lambda>row. length row = nat columns) array"
    "isValidGridPosition x z rows columns"
  shows "hasRow array z" and "cellAt array z x = Some (array ! nat z ! nat x)"
proof -
  from assms(3) have b: "0 \<le> x" "x < columns" "0 \<le> z" "z < rows"
    by (simp_all add: isValidGridPosition_def)
  then have z: "nat z < length array" using assms(1) by linarith
  then show h: "hasRow array z" using b by (simp add: hasRow_def)
  have "array ! nat z \<in> set array" using z by simp
  then have "length (array ! nat z) = nat columns" using assms(2) by (simp add: list_all_iff)
  then have "nat x < length (array ! nat z)" using b by linarith
  then show "cellAt array z x = Some (array ! nat z ! nat x)" using h b by (simp add: cellAt_def)
qed

lemma updateTile_Inr:
  assumes "updateTile x z f ts = Inr ts1"
  obtains t where "cellAt ts z x = Some t" "ts1 = ts[nat z := (ts ! nat z)[nat x := f t]]"
  using assms by (auto simp: updateTile_def split: option.splits)

lemma cellAt_Some:
  "cellAt array z x = Some v \<longleftrightarrow>
     0 \<le> z \<and> nat z < length array \<and> 0 \<le> x \<and> nat x < length (array ! nat z) \<and>
     v = array ! nat z ! nat x"
  by (auto simp: cellAt_def hasRow_def)

lemma updateTile_cellAt:
  assumes "updateTile x1 z1 f ts = Inr ts1"
  shows "cellAt ts1 z x = (if x = x1 \<and> z = z1 then map_option f (cellAt ts z x) else cellAt ts z x)"
proof -
  from assms obtain t where t: "cellAt ts z1 x1 = Some t"
    and ts1: "ts1 = ts[nat z1 := (ts ! nat z1)[nat x1 := f t]]"
    by (rule updateTile_Inr)
  from t have b: "0 \<le> z1" "nat z1 < length ts" "0 \<le> x1" "nat x1 < length (ts ! nat z1)"
    "t = ts ! nat z1 ! nat x1"
    by (simp_all add: cellAt_Some)
  show ?thesis
  proof (cases "z = z1")
    case True
    show ?thesis
    proof (cases "x = x1")
      case True
      with \<open>z = z1\<close> b t ts1 show ?thesis by (simp add: cellAt_def hasRow_def)
    next
      case False
      then have "0 \<le> x \<Longrightarrow> nat x \<noteq> nat x1" using b(3) by linarith
      with False \<open>z = z1\<close> b ts1 show ?thesis by (auto simp: cellAt_def hasRow_def)
    qed
  next
    case False
    then have "0 \<le> z \<Longrightarrow> nat z \<noteq> nat z1" using b(1) by linarith
    with False b ts1 show ?thesis by (auto simp: cellAt_def hasRow_def)
  qed
qed

lemma updateTile_shape:
  assumes "updateTile x z f ts = Inr ts1"
  shows "length ts1 = length ts" and "map length ts1 = map length ts"
proof -
  from assms obtain t where t: "cellAt ts z x = Some t"
    and ts1: "ts1 = ts[nat z := (ts ! nat z)[nat x := f t]]"
    by (rule updateTile_Inr)
  show "length ts1 = length ts" using ts1 by simp
  from t have z: "nat z < length ts" by (simp add: cellAt_Some)
  show "map length ts1 = map length ts"
    unfolding ts1 using z by (simp add: map_update list_update_same_conv)
qed

lemma updateTile_fixed:
  assumes "cellAt ts z x = Some t" "f t = t"
  shows "updateTile x z f ts = Inr ts"
proof -
  from assms(1) have b: "nat z < length ts" "nat x < length (ts ! nat z)" "t = ts ! nat z ! nat x"
    by (simp_all add: cellAt_Some)
  have "(ts ! nat z)[nat x := f t] = ts ! nat z" using b assms(2) by (simp add: list_update_same_conv)
  then have "ts[nat z := (ts ! nat z)[nat x := f t]] = ts" using b by (simp add: list_update_same_conv)
  then show ?thesis using assms(1) by (simp add: updateTile_def)
qed

lemma updateTile_twice:
  assumes "updateTile x z f ts = Inr ts1" "\<And>t. f (f t) = f t"
  shows "updateTile x z f ts1 = Inr ts1"
proof -
  from assms(1) obtain t where t: "cellAt ts z x = Some t" by (rule updateTile_Inr)
  have "cellAt ts1 z x = Some (f t)" using updateTile_cellAt[OF assms(1), of z x] t by simp
  then show ?thesis using assms(2) by (rule updateTile_fixed)
qed

lemma repeatCall_idem:
  assumes "\<And>s s1. f s = Inr s1 \<Longrightarrow> f s1 = Inr s1"
  shows "repeatCall (Suc n) f s = f s"
proof (cases "f s")
  case (Inl e)
  then show ?thesis by simp
next
  case (Inr s1)
  have "repeatCall k f s1 = Inr s1" for k
    by (induction k) (simp_all add: assms[OF Inr])
  with Inr show ?thesis by simp
qed

lemma markTile_again:
  assumes "markTile st x z gm = Inr gm1"
  shows "markTile st x z gm1 = Inr gm1"
proof (cases "isValidTilePosition gm x z")
  case False
  with assms show ?thesis by (simp add: markTile_def)
next
  case True
  from assms True obtain ts where r: "hasRow (tileObjects gm) z"
    and u: "updateTile x z (\<lambda>t. t\<lparr>tile_state := st\<rparr>) (tiles gm) = Inr ts"
    and gm1: "gm1 = gm\<lparr>tiles := ts\<rparr>"
    by (auto simp: markTile_def split: if_splits sum.splits)
  have "updateTile x z (\<lambda>t. t\<lparr>tile_state := st\<rparr>) ts = Inr ts"
    using u by (rule updateTile_twice) simp
  then show ?thesis using True r gm1 by (simp add: markTile_def isValidTilePosition_def)
qed

lemma markTile_shaped:
  assumes "gridShaped gm"
  shows "\<exists>gm1. markTile st x z gm = Inr gm1 \<and> gridShaped gm1 \<and> gm_path gm1 = gm_path gm"
proof (cases "isValidTilePosition gm x z")
  case False
  with assms show ?thesis by (simp add: markTile_def)
next
  case True
  from assms have s: "length (tiles gm) = nat (gm_rows gm)"
    "list_all (\<lambda>row. length row = nat (gm_columns gm)) (tiles gm)"
    "length (tileObjects gm) = nat (gm_rows gm)"
    "list_all (\<lambda>row. length row = nat (gm_columns gm)) (tileObjects gm)"
    by (simp_all add: gridShaped_def)
  from True have v: "isValidGridPosition x z (gm_rows gm) (gm_columns gm)"
    by (simp add: isValidTilePosition_def)
  have r: "hasRow (tileObjects gm) z" using s(3,4) v by (rule cellAt_shaped)
  have c: "cellAt (tiles gm) z x = Some (tiles gm ! nat z ! nat x)" using s(1,2) v by (rule cellAt_shaped)
  then obtain ts where u: "updateTile x z (\<lambda>t. t\<lparr>tile_state := st\<rparr>) (tiles gm) = Inr ts"
    by (simp add: updateTile_def)
  have "length ts = length (tiles gm)" "map length ts = map length (tiles gm)"
    using updateTile_shape[OF u] by simp_all
  then have "length ts = nat (gm_rows gm)" "list_all (\<lambda>row. length row = nat (gm_columns gm)) ts"
    using s(1,2) by (simp_all add: list_all_iff) (metis (no_types) list.set_map imageE imageI)
  then have "gridShaped (gm\<lparr>tiles := ts\<rparr>)" using s(3,4) by (simp add: gridShaped_def)
  then show ?thesis using True r u by (simp add: markTile_def)
qed

lemma resetTile_isReset: "isReset (resetTile t)"
  by (simp add: isReset_def resetTile_def)

lemma resetTile_twice: "resetTile (resetTile t) = resetTile t"
  by (simp add: resetTile_def)

lemma in_set_map_f: "x \<in> set xs \<Longrightarrow> f x \<in> set (map f xs)"
  by simp

lemma gridCells_iff: "(x, z) \<in> set (gridCells rows columns) \<longleftrightarrow> isValidGridPosition x z rows columns"
proof
  assume "(x, z) \<in> set (gridCells rows columns)"
  then show "isValidGridPosition x z rows columns"
    by (auto simp: gridCells_def isValidGridPosition_def)
next
  assume "isValidGridPosition x z rows columns"
  then have zx: "z \<in> set [0..rows - 1]" "x \<in> set [0..columns - 1]"
    by (simp_all add: isValidGridPosition_def)
  let ?row = "\<lambda>z. map (\<lambda>x. (x, z)) [0..columns - 1]"
  have a: "?row z \<in> set (map ?row [0..rows - 1])"
    using in_set_map_f[OF zx(1), of ?row] .
  have b: "(x, z) \<in> set (?row z)"
    using in_set_map_f[OF zx(2), of "\<lambda>x. (x, z)"] .
  show "(x, z) \<in> set (gridCells rows columns)"
    unfolding gridCells_def set_concat using a b by (rule UN_I)
qed

lemma rows_length_cong:
  assumes "map length ts1 = map length ts" "list_all (\<lambda>row. length row = n) ts"
  shows "list_all (\<lambda>row. length row = n) ts1"
proof -
  have "list_all (\<lambda>l. l = n) (map length ts)" using assms(2) by (simp add: list_all_iff)
  then have "list_all (\<lambda>l. l = n) (map length ts1)" using assms(1) by simp
  then show ?thesis by (simp add: list_all_iff)
qed

lemma resetTiles_cellAt:
  assumes "resetTiles cells objs ts = Inr ts1"
  shows "cellAt ts1 z x =
           (if (x, z) \<in> set cells then map_option resetTile (cellAt ts z x) else cellAt ts z x)"
  using assms
proof (induction cells arbitrary: ts)
  case Nil
  then show ?case by simp
next
  case (Cons c cells)
  obtain x1 z1 where c: "c = (x1, z1)" by (cases c)
  from Cons.prems c obtain ts2 where u: "updateTile x1 z1 resetTile ts = Inr ts2"
    and r: "resetTiles cells objs ts2 = Inr ts1"
    by (auto split: sum.splits if_splits)
  have a: "cellAt ts2 z x = (if x = x1 \<and> z = z1 then map_option resetTile (cellAt ts z x) else cellAt ts z x)"
    using u by (rule updateTile_cellAt)
  have b: "cellAt ts1 z x =
           (if (x, z) \<in> set cells then map_option resetTile (cellAt ts2 z x) else cellAt ts2 z x)"
    using r by (rule Cons.IH)
  show ?case unfolding b a c
    by (cases "cellAt ts z x") (auto simp: resetTile_twice)
qed

lemma resetTiles_shape:
  assumes "resetTiles cells objs ts = Inr ts1"
  shows "length ts1 = length ts \<and> map length ts1 = map length ts"
  using assms
proof (induction cells arbitrary: ts)
  case Nil
  then show ?case by simp
next
  case (Cons c cells)
  obtain x1 z1 where c: "c = (x1, z1)" by (cases c)
  from Cons.prems c obtain ts2 where u: "updateTile x1 z1 resetTile ts = Inr ts2"
    and r: "resetTiles cells objs ts2 = Inr ts1"
    by (auto split: sum.splits if_splits)
  from Cons.IH[OF r] updateTile_shape[OF u] show ?case by simp
qed

lemma resetTiles_Inr_cells:
  assumes "resetTiles cells objs ts = Inr ts1" "(x, z) \<in> set cells"
  shows "hasRow objs z \<and> cellAt ts z x \<noteq> None"
  using assms
proof (induction cells arbitrary: ts)
  case Nil
  then show ?case by simp
next
  case (Cons c cells)
  obtain x1 z1 where c: "c = (x1, z1)" by (cases c)
  from Cons.prems(1) c obtain ts2 where u: "updateTile x1 z1 resetTile ts = Inr ts2"
    and h: "hasRow objs z1" and r: "resetTiles cells objs ts2 = Inr ts1"
    by (auto split: sum.splits if_splits)
  show ?case
  proof (cases "(x, z) = (x1, z1)")
    case True
    from u obtain t where "cellAt ts z1 x1 = Some t" by (rule updateTile_Inr)
    with True h show ?thesis by simp
  next
    case False
    with Cons.prems(2) c have "(x, z) \<in> set cells" by auto
    from Cons.IH[OF r this] have "hasRow objs z" "cellAt ts2 z x \<noteq> None" by simp_all
    moreover have "cellAt ts2 z x = cellAt ts z x"
      using updateTile_cellAt[OF u, of z x] False by auto
    ultimately show ?thesis by simp
  qed
qed

lemma resetTiles_fixed:
  assumes "\<And>x z. (x, z) \<in> set cells \<Longrightarrow>
             hasRow objs z \<and> (\<exists>t. cellAt ts z x = Some t \<and> resetTile t = t)"
  shows "resetTiles cells objs ts = Inr ts"
  using assms
proof (induction cells)
  case Nil
  then show ?case by simp
next
  case (Cons c cells)
  obtain x1 z1 where c: "c = (x1, z1)" by (cases c)
  from Cons.prems[of x1 z1] c obtain t where h: "hasRow objs z1"
    and t: "cellAt ts z1 x1 = Some t" "resetTile t = t" by auto
  have "updateTile x1 z1 resetTile ts = Inr ts" using t by (rule updateTile_fixed)
  moreover have "resetTiles cells objs ts = Inr ts"
  proof (rule Cons.IH)
    fix x z assume "(x, z) \<in> set cells"
    then have "(x, z) \<in> set (c # cells)" by simp
    then show "hasRow objs z \<and> (\<exists>t. cellAt ts z x = Some t \<and> resetTile t = t)"
      by (rule Cons.prems)
  qed
  ultimately show ?case using c h by simp
qed

lemma resetTiles_again:
  assumes "resetTiles cells objs ts = Inr ts1"
  shows "resetTiles cells objs ts1 = Inr ts1"
proof (rule resetTiles_fixed)
  fix x z assume m: "(x, z) \<in> set cells"
  from resetTiles_Inr_cells[OF assms m] obtain t where h: "hasRow objs z" and t: "cellAt ts z x = Some t"
    by auto
  have "cellAt ts1 z x = Some (resetTile t)" using resetTiles_cellAt[OF assms, of z x] m t by simp
  with h show "hasRow objs z \<and> (\<exists>t. cellAt ts1 z x = Some t \<and> resetTile t = t)"
    by (simp add: resetTile_twice)
qed

lemma resetTiles_total:
  assumes "\<And>x z. (x, z) \<in> set cells \<Longrightarrow> hasRow objs z \<and> cellAt ts z x \<noteq> None"
  shows "\<exists>ts1. resetTiles cells objs ts = Inr ts1"
  using assms
proof (induction cells arbitrary: ts)
  case Nil
  then show ?case by simp
next
  case (Cons c cells)
  obtain x1 z1 where c: "c = (x1, z1)" by (cases c)
  from Cons.prems[of x1 z1] c obtain t where h: "hasRow objs z1" and t: "cellAt ts z1 x1 = Some t"
    by auto
  then obtain ts2 where u: "updateTile x1 z1 resetTile ts = Inr ts2" by (simp add: updateTile_def)
  have "\<exists>ts1. resetTiles cells objs ts2 = Inr ts1"
  proof (rule Cons.IH)
    fix x z assume "(x, z) \<in> set cells"
    then have "(x, z) \<in> set (c # cells)" by simp
    then have "hasRow objs z \<and> cellAt ts z x \<noteq> None" by (rule Cons.prems)
    then show "hasRow objs z \<and> cellAt ts2 z x \<noteq> None"
      using updateTile_cellAt[OF u, of z x] by auto
  qed
  with u h c show ?case by simp
qed

lemma resetTileStates_again:
  assumes "resetTileStates gm = Inr gm1"
  shows "resetTileStates gm1 = Inr gm1"
proof -
  from assms obtain ts1 where
    r: "resetTiles (gridCells (gm_rows gm) (gm_columns gm)) (tileObjects gm) (tiles gm) = Inr ts1"
    and gm1: "gm1 = gm\<lparr>tiles := ts1, gm_path := [], isRevealed := False\<rparr>"
    by (auto simp: resetTileStates_def split: sum.splits)
  from resetTiles_again[OF r] gm1 show ?thesis by (simp add: resetTileStates_def)
qed

lemma resetTileStates_shaped:
  assumes "gridShaped gm"
  shows "\<exists>gm1. resetTileStates gm = Inr gm1 \<and> gridShaped gm1 \<and> gm_path gm1 = [] \<and>
           (\<forall>row\<in>set (tiles gm1). \<forall>t\<in>set row. isReset t)"
proof -
  let ?cells = "gridCells (gm_rows gm) (gm_columns gm)"
  from assms have s: "length (tiles gm) = nat (gm_rows gm)"
    "list_all (\<lambda>row. length row = nat (gm_columns gm)) (tiles gm)"
    "length (tileObjects gm) = nat (gm_rows gm)"
    "list_all (\<lambda>row. length row = nat (gm_columns gm)) (tileObjects gm)"
    by (simp_all add: gridShaped_def)
  have "\<exists>ts1. resetTiles ?cells (tileObjects gm) (tiles gm) = Inr ts1"
  proof (rule resetTiles_total)
    fix x z assume "(x, z) \<in> set ?cells"
    then have v: "isValidGridPosition x z (gm_rows gm) (gm_columns gm)" by (simp add: gridCells_iff)
    show "hasRow (tileObjects gm) z \<and> cellAt (tiles gm) z x \<noteq> None"
      using cellAt_shaped(1)[OF s(3,4) v] cellAt_shaped(2)[OF s(1,2) v] by simp
  qed
  then obtain ts1 where r: "resetTiles ?cells (tileObjects gm) (tiles gm) = Inr ts1" by blast
  let ?gm1 = "gm\<lparr>tiles := ts1, gm_path := [], isRevealed := False\<rparr>"
  have res: "resetTileStates gm = Inr ?gm1" using r by (simp add: resetTileStates_def)
  from resetTiles_shape[OF r] have sh: "length ts1 = length (tiles gm)"
    "map length ts1 = map length (tiles gm)" by simp_all
  have s1: "length ts1 = nat (gm_rows gm)" "list_all (\<lambda>row. length row = nat (gm_columns gm)) ts1"
    using sh s(1) rows_length_cong[OF sh(2) s(2)] by simp_all
  then have shaped: "gridShaped ?gm1" using s(3,4) by (simp add: gridShaped_def)
  have "\<forall>row\<in>set ts1. \<forall>t\<in>set row. isReset t"
  proof (intro ballI)
    fix row t assume row: "row \<in> set ts1" and t: "t \<in> set row"
    from row obtain i where i: "i < length ts1" "row = ts1 ! i" by (auto simp: in_set_conv_nth)
    from t obtain j where j: "j < length row" "t = row ! j" by (auto simp: in_set_conv_nth)
    have lr: "length row = nat (gm_columns gm)" using s1(2) row by (simp add: list_all_iff)
    have v: "isValidGridPosition (int j) (int i) (gm_rows gm) (gm_columns gm)"
    proof -
      have "int i < gm_rows gm" using i(1) s1(1) by linarith
      moreover have "int j < gm_columns gm" using j(1) lr by linarith
      ultimately show ?thesis by (simp add: isValidGridPosition_def)
    qed
    then have m: "(int j, int i) \<in> set ?cells" by (simp add: gridCells_iff)
    have "cellAt ts1 (int i) (int j) = Some t" using i j by (simp add: cellAt_Some)
    moreover have "cellAt ts1 (int i) (int j) = map_option resetTile (cellAt (tiles gm) (int i) (int j))"
      using resetTiles_cellAt[OF r, of "int i" "int j"] m by simp
    ultimately obtain t0 where "t = resetTile t0" by auto
    then show "isReset t" by (simp add: resetTile_isReset)
  qed
  with res shaped show ?thesis by simp
qed




lemma length_upto0: "length [0..n - 1] = nat n"
  by simp




section \<open>The tracker and the triggers\<close>

lemma emit_fields [simp]:
  "isTracking (emit b ev s) = isTracking s"
  "pathProgress (emit b ev s) = pathProgress s"
  "stepsOnPath (emit b ev s) = stepsOnPath s"
  "currentTile (emit b ev s) = currentTile s"
  "gridManager (emit b ev s) = gridManager s"
  "skipPathCheck (emit b ev s) = skipPathCheck s"
  "cb_onTileEntered (emit b ev s) = cb_onTileEntered s"
  "cb_onTileExited (emit b ev s) = cb_onTileExited s"
  "cb_onCorrectStep (emit b ev s) = cb_onCorrectStep s"
  "cb_onWrongStep (emit b ev s) = cb_onWrongStep s"
  "cb_onPathCompleted (emit b ev s) = cb_onPathCompleted s"
  "emitted (emit b ev s) = (if b then emitted s @ [ev] else emitted s)"
  by (simp_all add: emit_def)

lemma validateStep_currentTile:
  assumes "validateStep gridPos s = Inr s1"
  shows "currentTile s1 = currentTile s"
  using assms
  by (auto simp: validateStep_def Let_def split: option.splits if_splits sum.splits)

lemma isStepEvent_simps [simp]:
  "isStepEvent (CorrectStep p i n)" "isStepEvent (WrongStep p q)" "isStepEvent (PathCompleted ps)"
  "\<not> isStepEvent (TileEntered p)" "\<not> isStepEvent (TileExited p)"
  by (simp_all add: isStepEvent_def)

lemma markTileCorrect_shaped:
  assumes "gridShaped gm"
  shows "\<exists>gm1. markTileCorrect x z gm = Inr gm1 \<and> gridShaped gm1 \<and> getPath gm1 = getPath gm"
  using markTile_shaped[OF assms, of StCorrect x z] by (simp add: markTileCorrect_def getPath_def)

lemma markTileWrong_shaped:
  assumes "gridShaped gm"
  shows "\<exists>gm1. markTileWrong x z gm = Inr gm1 \<and> gridShaped gm1 \<and> getPath gm1 = getPath gm"
  using markTile_shaped[OF assms, of StWrong x z] by (simp add: markTileWrong_def getPath_def)

text \<open>The entry prologue: an armed entry into a new tile reaches the validator.\<close>

lemma handleTriggerEntered_armed:
  assumes "isTracking s" "currentTile s \<noteq> Some (gridX, gridZ)"
  shows "\<exists>s3. handleTriggerEntered gridX gridZ s = validateStep (gridX, gridZ) s3 \<and>
           sameSetup s s3 \<and> gridManager s3 = gridManager s \<and>
           pathProgress s3 = pathProgress s \<and> stepsOnPath s3 = stepsOnPath s \<and>
           currentTile s3 = Some (gridX, gridZ) \<and>
           filter isStepEvent (emitted s3) = filter isStepEvent (emitted s)"
proof -
  from assms(2) have n: "\<not> isSameGridPosition (Some (gridX, gridZ)) (currentTile s)"
    by (cases "currentTile s") auto
  show ?thesis
    using assms(1) n
    by (cases "currentTile s")
       (auto simp: handleTriggerEntered_def Let_def emit_def sameSetup_def)
qed

lemma validateStep_correct:
  assumes "gridManager s = Some gm" "gridShaped gm" "getPath gm = P" "\<not> skipPathCheck s"
    "pathProgress s = k" "k < length P" "gridPos = P ! k"
  shows "\<exists>s1 gm1. validateStep gridPos s = Inr s1 \<and> gridManager s1 = Some gm1 \<and>
           gridShaped gm1 \<and> getPath gm1 = P \<and> sameSetup s s1 \<and>
           currentTile s1 = currentTile s \<and>
           stepsOnPath s1 = stepsOnPath s @ [gridPos] \<and> pathProgress s1 = Suc k \<and>
           emitted s1 = emitted s @
             (if cb_onCorrectStep s then [CorrectStep gridPos (Suc k) (length P)] else []) @
             (if Suc k = length P \<and> cb_onPathCompleted s
              then [PathCompleted (stepsOnPath s @ [gridPos])] else [])"
proof -
  obtain gm1 where m: "markTileCorrect (fst gridPos) (snd gridPos) gm = Inr gm1"
    and g1: "gridShaped gm1" "getPath gm1 = getPath gm"
    using markTileCorrect_shaped[OF assms(2)] by blast
  have e: "pathAt P k = Some gridPos" using assms(6,7) by (simp add: pathAt_def)
  have same: "isSameGridPosition (Some gridPos) (Some gridPos)" by (cases gridPos) simp
  have pne: "length P \<noteq> 0" using assms(6) by auto
  show ?thesis
    using assms(1,3,4,5,6) m g1 e same pne
    by (auto simp: validateStep_def Let_def emit_def sameSetup_def)
qed

lemma validateStep_wrong:
  assumes "gridManager s = Some gm" "gridShaped gm" "getPath gm = P" "\<not> skipPathCheck s"
    "pathProgress s = k" "k < length P" "gridPos \<noteq> P ! k"
  shows "\<exists>s1 gm1. validateStep gridPos s = Inr s1 \<and> gridManager s1 = Some gm1 \<and>
           gridShaped gm1 \<and> getPath gm1 = P \<and> sameSetup s s1 \<and>
           currentTile s1 = currentTile s \<and>
           stepsOnPath s1 = stepsOnPath s \<and> pathProgress s1 = k \<and>
           emitted s1 = emitted s @
             (if cb_onWrongStep s then [WrongStep gridPos (P ! k)] else [])"
proof -
  obtain gm1 where m: "markTileWrong (fst gridPos) (snd gridPos) gm = Inr gm1"
    and g1: "gridShaped gm1" "getPath gm1 = getPath gm"
    using markTileWrong_shaped[OF assms(2)] by blast
  have e: "pathAt P k = Some (P ! k)" using assms(6) by (simp add: pathAt_def)
  have diff: "\<not> isSameGridPosition (Some gridPos) (Some (P ! k))"
    using assms(7) by (cases gridPos; cases "P ! k") simp
  have pne: "length P \<noteq> 0" using assms(6) by auto
  show ?thesis
    using assms(1,3,4,5,6) m g1 e diff pne
    by (auto simp: validateStep_def Let_def emit_def sameSetup_def)
qed

lemma feedEntries_from:
  assumes "gridManager s = Some gm" "gridShaped gm" "getPath gm = P" "distinct P"
    and "isTracking s" "\<not> skipPathCheck s" "cb_onCorrectStep s" "cb_onPathCompleted s"
    and "pathProgress s = k" "k \<le> length P" "k < length P \<longrightarrow> currentTile s \<noteq> Some (P ! k)"
  shows "\<exists>s1. feedEntries (drop k P) s = Inr s1 \<and> pathProgress s1 = length P \<and>
           stepsOnPath s1 = stepsOnPath s @ drop k P \<and>
           filter isStepEvent (emitted s1) =
             filter isStepEvent (emitted s) @
             map (\<lambda>i. CorrectStep (P ! i) (Suc i) (length P)) [k..<length P] @
             (if k < length P then [PathCompleted (stepsOnPath s @ drop k P)] else [])"
  using assms
proof (induction "length P - k" arbitrary: s gm k)
  case 0
  then have "k = length P" by simp
  with 0 show ?case by simp
next
  case (Suc n)
  then have k: "k < length P" by linarith
  have dk: "drop k P = P ! k # drop (Suc k) P" using k by (simp add: Cons_nth_drop_Suc)
  obtain x z where xz: "P ! k = (x, z)" by (cases "P ! k")
  have c: "currentTile s \<noteq> Some (x, z)" using Suc.prems(11) k xz by simp
  from handleTriggerEntered_armed[OF Suc.prems(5) c] obtain s3 where
    h: "handleTriggerEntered x z s = validateStep (x, z) s3"
    and s3: "sameSetup s s3" "gridManager s3 = gridManager s" "pathProgress s3 = pathProgress s"
      "stepsOnPath s3 = stepsOnPath s" "currentTile s3 = Some (x, z)"
      "filter isStepEvent (emitted s3) = filter isStepEvent (emitted s)"
    by auto
  have "\<exists>s1 gm1. validateStep (x, z) s3 = Inr s1 \<and> gridManager s1 = Some gm1 \<and>
           gridShaped gm1 \<and> getPath gm1 = P \<and> sameSetup s3 s1 \<and>
           currentTile s1 = currentTile s3 \<and>
           stepsOnPath s1 = stepsOnPath s3 @ [(x, z)] \<and> pathProgress s1 = Suc k \<and>
           emitted s1 = emitted s3 @
             (if cb_onCorrectStep s3 then [CorrectStep (x, z) (Suc k) (length P)] else []) @
             (if Suc k = length P \<and> cb_onPathCompleted s3
              then [PathCompleted (stepsOnPath s3 @ [(x, z)])] else [])"
    using Suc.prems(1,2,3,6,9) s3 k xz
    by (intro validateStep_correct) (simp_all add: sameSetup_def)
  then obtain s1 gm1 where v: "validateStep (x, z) s3 = Inr s1" "gridManager s1 = Some gm1"
    "gridShaped gm1" "getPath gm1 = P" "sameSetup s3 s1" "currentTile s1 = currentTile s3"
    "stepsOnPath s1 = stepsOnPath s3 @ [(x, z)]" "pathProgress s1 = Suc k"
    "emitted s1 = emitted s3 @
             (if cb_onCorrectStep s3 then [CorrectStep (x, z) (Suc k) (length P)] else []) @
             (if Suc k = length P \<and> cb_onPathCompleted s3
              then [PathCompleted (stepsOnPath s3 @ [(x, z)])] else [])"
    by blast
  have flags: "isTracking s1" "\<not> skipPathCheck s1" "cb_onCorrectStep s1" "cb_onPathCompleted s1"
    "cb_onCorrectStep s3" "cb_onPathCompleted s3"
    using Suc.prems(5,6,7,8) s3(1) v(5) by (simp_all add: sameSetup_def)
  have ev1: "filter isStepEvent (emitted s1) =
             filter isStepEvent (emitted s) @ [CorrectStep (P ! k) (Suc k) (length P)] @
             (if Suc k = length P then [PathCompleted (stepsOnPath s @ [P ! k])] else [])"
    using v(9) flags s3(4,6) xz by simp
  have nxt: "Suc k < length P \<longrightarrow> currentTile s1 \<noteq> Some (P ! Suc k)"
  proof
    assume l: "Suc k < length P"
    have "P ! Suc k \<noteq> P ! k"
    proof
      assume "P ! Suc k = P ! k"
      then have "Suc k = k" using l k Suc.prems(4) by (simp only: nth_eq_iff_index_eq)
      then show False by simp
    qed
    then show "currentTile s1 \<noteq> Some (P ! Suc k)" using v(6) s3(5) xz by simp
  qed
  have n: "n = length P - Suc k" using Suc.hyps(2) by linarith
  have "Suc k \<le> length P" using k by simp
  from Suc.hyps(1)[OF n v(2,3,4) Suc.prems(4) flags(1,2,3,4) v(8) this nxt]
  obtain s2 where r: "feedEntries (drop (Suc k) P) s1 = Inr s2" "pathProgress s2 = length P"
    "stepsOnPath s2 = stepsOnPath s1 @ drop (Suc k) P"
    "filter isStepEvent (emitted s2) =
       filter isStepEvent (emitted s1) @
       map (\<lambda>i. CorrectStep (P ! i) (Suc i) (length P)) [Suc k..<length P] @
       (if Suc k < length P then [PathCompleted (stepsOnPath s1 @ drop (Suc k) P)] else [])"
    by blast
  have f: "feedEntries (drop k P) s = Inr s2" using dk xz h v(1) r(1) by simp
  have st: "stepsOnPath s2 = stepsOnPath s @ drop k P" using r(3) v(7) s3(4) dk xz by simp
  have up: "[k..<length P] = k # [Suc k..<length P]" using k by (simp add: upt_conv_Cons)
  have "filter isStepEvent (emitted s2) =
          filter isStepEvent (emitted s) @
          map (\<lambda>i. CorrectStep (P ! i) (Suc i) (length P)) [k..<length P] @
          [PathCompleted (stepsOnPath s @ drop k P)]"
  proof (cases "Suc k = length P")
    case True
    then have "drop (Suc k) P = []" by simp
    with True r(4) ev1 up dk show ?thesis by simp
  next
    case False
    then have l: "Suc k < length P" using k by linarith
    have "stepsOnPath s1 @ drop (Suc k) P = stepsOnPath s @ drop k P"
      using v(7) s3(4) dk xz by simp
    with False l r(4) ev1 up show ?thesis by simp
  qed
  with f r(2) st k show ?case by auto
qed

lemma filter_correct_of_step:
  "filter isCorrectStep (filter isStepEvent evs) = filter isCorrectStep evs"
  by (induction evs) (auto simp: isStepEvent_def)






section \<open>Installing a round's path\<close>

lemma generatePathFromBottom_pathInv:
  assumes "1 \<le> rows" "1 \<le> columns"
  shows "\<exists>p g1. generatePathFromBottom rows columns pathLength g = Inr (p, g1) \<and>
           pathInv rows columns p (set p) \<and> hd p = (columns div 2, rows - 1)"
proof -
  let ?sp = "(columns div 2, rows - 1)"
  let ?L = "min pathLength (rows * columns)"
  have "0 \<le> columns div 2" "columns div 2 < columns" using assms by presburger+
  then have sp: "inGrid rows columns ?sp"
    using assms by (simp add: inGrid_def isValidGridPosition_def)
  have "\<exists>p g1. generatePathRetries MAX_RETRIES rows columns ?L (Some ?sp) None g = Inr (p, g1) \<and>
          (pathInv rows columns p (set p) \<and> hd p = ?sp)"
  proof (rule generatePathRetries_pred)
    fix g' show "\<exists>p g1. generatePathAttempt rows columns ?L (Some ?sp) g' = Inr (p, g1) \<and>
                   (pathInv rows columns p (set p) \<and> hd p = ?sp)"
      using assms sp by (intro generatePathAttempt_keeps_start) simp_all
    show "case None of None \<Rightarrow> 0 < MAX_RETRIES
          | Some b \<Rightarrow> pathInv rows columns b (set b) \<and> hd b = ?sp"
      by (simp add: MAX_RETRIES_def)
  qed
  then show ?thesis
    by (simp add: generatePathFromBottom_def generatePath_def Let_def)
qed

lemma markPathTiles_total:
  assumes "\<And>x z. (x, z) \<in> set ps \<Longrightarrow> cellAt ts z x \<noteq> None"
  shows "\<exists>ts1. markPathTiles i n ps ts = Inr ts1 \<and> length ts1 = length ts \<and>
           map length ts1 = map length ts"
  using assms
proof (induction ps arbitrary: i ts)
  case Nil
  then show ?case by simp
next
  case (Cons c ps)
  obtain x1 z1 where c: "c = (x1, z1)" by (cases c)
  let ?f = "\<lambda>t. t\<lparr>isPathTile := True, pathIndex := int i,
                     tile_state := (if i = 0 then StStart
                                    else if i = n - 1 then StEnd else StPath)\<rparr>"
  have "cellAt ts z1 x1 \<noteq> None" using Cons.prems[of x1 z1] c by simp
  then obtain ts2 where u: "updateTile x1 z1 ?f ts = Inr ts2" by (auto simp: updateTile_def)
  have "\<exists>ts1. markPathTiles (Suc i) n ps ts2 = Inr ts1 \<and> length ts1 = length ts2 \<and>
           map length ts1 = map length ts2"
  proof (rule Cons.IH)
    fix x z assume "(x, z) \<in> set ps"
    then have "(x, z) \<in> set (c # ps)" by simp
    then have "cellAt ts z x \<noteq> None" by (rule Cons.prems)
    then show "cellAt ts2 z x \<noteq> None" using updateTile_cellAt[OF u, of z x] by auto
  qed
  then show ?case using u c updateTile_shape[OF u] by auto
qed

lemma generateNewPath_total:
  assumes "gridShaped gm" "1 \<le> gm_rows gm" "1 \<le> gm_columns gm"
  shows "\<exists>gm1 g1. generateNewPath pathLength gm g = Inr (gm1, g1) \<and> gridShaped gm1 \<and>
           gm_path gm1 \<noteq> [] \<and> hd (gm_path gm1) = (gm_columns gm div 2, gm_rows gm - 1) \<and>
           map_sum id fst (generatePathFromBottom (gm_rows gm) (gm_columns gm) pathLength g) =
             Inr (gm_path gm1)"
proof -
  from generatePathFromBottom_pathInv[OF assms(2,3), of pathLength g] obtain p g1 where
    r: "generatePathFromBottom (gm_rows gm) (gm_columns gm) pathLength g = Inr (p, g1)"
    and i: "pathInv (gm_rows gm) (gm_columns gm) p (set p)"
    and h: "hd p = (gm_columns gm div 2, gm_rows gm - 1)"
    by blast
  from assms(1) have s: "length (tiles gm) = nat (gm_rows gm)"
    "list_all (\<lambda>row. length row = nat (gm_columns gm)) (tiles gm)"
    "length (tileObjects gm) = nat (gm_rows gm)"
    "list_all (\<lambda>row. length row = nat (gm_columns gm)) (tileObjects gm)"
    by (simp_all add: gridShaped_def)
  have "\<exists>ts1. markPathTiles 0 (length p) p (tiles gm) = Inr ts1 \<and>
          length ts1 = length (tiles gm) \<and> map length ts1 = map length (tiles gm)"
  proof (rule markPathTiles_total)
    fix x z assume "(x, z) \<in> set p"
    then have "isValidGridPosition x z (gm_rows gm) (gm_columns gm)"
      using i by (auto simp: pathInv_def list_all_iff inGrid_def)
    from cellAt_shaped(2)[OF s(1,2) this] show "cellAt (tiles gm) z x \<noteq> None" by simp
  qed
  then obtain ts1 where m: "markPathTiles 0 (length p) p (tiles gm) = Inr ts1"
    and sh: "length ts1 = length (tiles gm)" "map length ts1 = map length (tiles gm)"
    by blast
  have "gridShaped (gm\<lparr>gm_path := p, tiles := ts1\<rparr>)"
    using s sh(1) rows_length_cong[OF sh(2) s(2)] by (simp add: gridShaped_def)
  moreover have "p \<noteq> []" using i by (simp add: pathInv_def)
  ultimately show ?thesis using r m h by (simp add: generateNewPath_def)
qed

lemma setupLevel_with_store:
  assumes "saveManager gs = Some saveData"
  shows "setupLevel gs g =
           (case gs_gridManager gs of
              None \<Rightarrow>
                Inr (gs\<lparr>currentLevel := getCurrentLevel saveData,
                        memorizeTimeRemaining := MEMORIZE_TIME\<rparr>, g)
            | Some gm \<Rightarrow>
                (case generateNewPath
                        (min (BASE_PATH_LENGTH + (getCurrentLevel saveData - 1) * PATH_INCREMENT)
                             MAX_PATH_LENGTH) gm g of
                   Inl e \<Rightarrow> Inl e
                 | Inr (gm1, g1) \<Rightarrow>
                     Inr (gs\<lparr>currentLevel := getCurrentLevel saveData,
                             gs_gridManager := Some gm1,
                             memorizeTimeRemaining := MEMORIZE_TIME\<rparr>, g1)))"
  using assms
  by (cases "gs_gridManager gs")
     (auto simp: setupLevel_def Let_def getLevelConfig_def split: sum.splits)

section \<open>The claims\<close>

text \<open>
  Claim C1, as amended. In normal mode with tracking armed, progress 0, no recorded
  steps and the player not yet on the first tile, feeding the validator the entries of
  the active path \<open>P\<close> (distinct cells, at least one) in order makes it emit one
  correct-step event for every entry, \<open>|P|\<close> in all, the \<open>i\<close>-th with progress \<open>i\<close> of
  \<open>|P|\<close>, and after the last of them one path-completed event carrying the path;
  \<open>pathProgress\<close> ends at \<open>|P|\<close>. The final matching entry emits its correct-step
  event and then path-completed.
\<close>

theorem feed_path_in_order:
  assumes "gridManager s = Some gm" "gridShaped gm" "getPath gm = P" "P \<noteq> []" "distinct P"
    and "isTracking s" "\<not> skipPathCheck s" "pathProgress s = 0" "stepsOnPath s = []"
    and "currentTile s \<noteq> Some (P ! 0)" "cb_onCorrectStep s" "cb_onPathCompleted s"
  shows "\<exists>s1. feedEntries P s = Inr s1 \<and>
           filter isStepEvent (emitted s1) =
             filter isStepEvent (emitted s) @
             map (\<lambda>i. CorrectStep (P ! i) (Suc i) (length P)) [0..<length P] @
             [PathCompleted P] \<and>
           length (filter isCorrectStep (emitted s1)) =
             length (filter isCorrectStep (emitted s)) + length P \<and>
           pathProgress s1 = length P \<and> stepsOnPath s1 = P"
proof -
  have "0 \<le> length P" "0 < length P \<longrightarrow> currentTile s \<noteq> Some (P ! 0)"
    using assms(10) by simp_all
  from feedEntries_from[OF assms(1,2,3,5,6,7,11,12,8) this]
  obtain s1 where r: "feedEntries P s = Inr s1" "pathProgress s1 = length P"
    "stepsOnPath s1 = P"
    "filter isStepEvent (emitted s1) =
             filter isStepEvent (emitted s) @
             map (\<lambda>i. CorrectStep (P ! i) (Suc i) (length P)) [0..<length P] @
             [PathCompleted P]"
    using assms(4,9) by auto
  have "filter isCorrectStep (emitted s1) = filter isCorrectStep (filter isStepEvent (emitted s1))"
    by (simp only: filter_correct_of_step)
  also have "\<dots> = filter isCorrectStep (filter isStepEvent (emitted s)) @
                   map (\<lambda>i. CorrectStep (P ! i) (Suc i) (length P)) [0..<length P]"
    unfolding r(4) by (simp add: filter_map comp_def)
  also have "filter isCorrectStep (filter isStepEvent (emitted s)) = filter isCorrectStep (emitted s)"
    by (rule filter_correct_of_step)
  finally have "length (filter isCorrectStep (emitted s1)) =
             length (filter isCorrectStep (emitted s)) + length P" by simp
  with r show ?thesis by blast
qed

theorem feed_path_in_order_witness:
  "gridManager armedTracker = Some (resetTriggers roundGrid) \<and>
   gridShaped (resetTriggers roundGrid) \<and>
   getPath (resetTriggers roundGrid) = [(2, 4), (1, 4), (0, 4), (0, 3), (1, 3)] \<and>
   isTracking armedTracker \<and> \<not> skipPathCheck armedTracker \<and>
   pathProgress armedTracker = 0 \<and> stepsOnPath armedTracker = [] \<and>
   currentTile armedTracker = None \<and>
   cb_onCorrectStep armedTracker \<and> cb_onPathCompleted armedTracker \<and>
   (\<exists>s1. feedEntries [(2, 4), (1, 4), (0, 4), (0, 3), (1, 3)] armedTracker = Inr s1 \<and>
      filter isStepEvent (emitted s1) =
        [CorrectStep (2, 4) 1 5, CorrectStep (1, 4) 2 5, CorrectStep (0, 4) 3 5,
         CorrectStep (0, 3) 4 5, CorrectStep (1, 3) 5 5, PathCompleted [(2, 4), (1, 4), (0, 4), (0, 3), (1, 3)]] \<and>
      pathProgress s1 = 5 \<and> stepsOnPath s1 = [(2, 4), (1, 4), (0, 4), (0, 3), (1, 3)])"
proof -
  let ?P = "[(2, 4), (1, 4), (0, 4), (0, 3), (1, 3)] :: pos list"
  have g: "gridManager armedTracker = Some (resetTriggers roundGrid)"
    by (simp add: armedTracker_def startTracking_def sceneTracker_def)
  have sh: "gridShaped (resetTriggers roundGrid)" by code_simp
  have p: "getPath (resetTriggers roundGrid) = ?P" by code_simp
  have f: "isTracking armedTracker" "\<not> skipPathCheck armedTracker" "pathProgress armedTracker = 0"
    "stepsOnPath armedTracker = []" "currentTile armedTracker \<noteq> Some (?P ! 0)"
    "cb_onCorrectStep armedTracker" "cb_onPathCompleted armedTracker"
    by (simp_all add: armedTracker_def startTracking_def sceneTracker_def)
  have e: "emitted armedTracker = []" "currentTile armedTracker = None"
    by (simp_all add: armedTracker_def startTracking_def sceneTracker_def)
  have d: "?P \<noteq> []" "distinct ?P" by simp_all
  have u: "[0..<length ?P] = [0, 1, 2, 3, 4]" by (simp add: upt_rec)
  from feed_path_in_order[OF g sh p d f] obtain s1 where s1:
    "feedEntries ?P armedTracker = Inr s1"
    "filter isStepEvent (emitted s1) =
       filter isStepEvent (emitted armedTracker) @
       map (\<lambda>i. CorrectStep (?P ! i) (Suc i) (length ?P)) [0..<length ?P] @
       [PathCompleted ?P]"
    "pathProgress s1 = length ?P" "stepsOnPath s1 = ?P"
    by (elim exE conjE)
  have "filter isStepEvent (emitted s1) =
        [CorrectStep (2, 4) 1 5, CorrectStep (1, 4) 2 5, CorrectStep (0, 4) 3 5,
         CorrectStep (0, 3) 4 5, CorrectStep (1, 3) 5 5, PathCompleted ?P]"
    unfolding s1(2) u using e(1) by simp
  moreover have "pathProgress s1 = 5" using s1(3) by simp
  ultimately have "\<exists>s1. feedEntries ?P armedTracker = Inr s1 \<and>
      filter isStepEvent (emitted s1) =
        [CorrectStep (2, 4) 1 5, CorrectStep (1, 4) 2 5, CorrectStep (0, 4) 3 5,
         CorrectStep (0, 3) 4 5, CorrectStep (1, 3) 5 5, PathCompleted ?P] \<and>
      pathProgress s1 = 5 \<and> stepsOnPath s1 = ?P"
    using s1(1,4) by (intro exI[of _ s1] conjI)
  with g sh p f(1,2,3,4,6,7) e(2) show ?thesis by (intro conjI)
qed

text \<open>
  The claim as it was stated promises \<open>|P| - 1\<close> correct-step events, the last entry
  emitting path-completed instead of a correct-step. On the armed tracker of the 5 by 5
  grid with the five-cell path from \<open>(2, 4)\<close>, feeding the path yields five correct-step
  events (the fifth for the last entry) before path-completed.
\<close>

theorem feed_path_counterexample:
  "isTracking armedTracker \<and> \<not> skipPathCheck armedTracker \<and>
   map_option getPath (gridManager armedTracker) = Some [(2, 4), (1, 4), (0, 4), (0, 3), (1, 3)] \<and>
   stepEvents (feedEntries [(2, 4), (1, 4), (0, 4), (0, 3), (1, 3)] armedTracker) =
     [CorrectStep (2, 4) 1 5, CorrectStep (1, 4) 2 5, CorrectStep (0, 4) 3 5,
      CorrectStep (0, 3) 4 5, CorrectStep (1, 3) 5 5, PathCompleted [(2, 4), (1, 4), (0, 4), (0, 3), (1, 3)]] \<and>
   length (filter isCorrectStep (stepEvents (feedEntries [(2, 4), (1, 4), (0, 4), (0, 3), (1, 3)] armedTracker))) \<noteq> length [(2, 4), (1, 4), (0, 4), (0, 3), (1, 3)] - 1"
proof -
  have a: "isTracking armedTracker" "\<not> skipPathCheck armedTracker"
    by (simp_all add: armedTracker_def startTracking_def sceneTracker_def)
  have b: "map_option getPath (gridManager armedTracker) = Some [(2, 4), (1, 4), (0, 4), (0, 3), (1, 3)]"
    by code_simp
  have c: "stepEvents (feedEntries [(2, 4), (1, 4), (0, 4), (0, 3), (1, 3)] armedTracker) =
     [CorrectStep (2, 4) 1 5, CorrectStep (1, 4) 2 5, CorrectStep (0, 4) 3 5,
      CorrectStep (0, 3) 4 5, CorrectStep (1, 3) 5 5, PathCompleted [(2, 4), (1, 4), (0, 4), (0, 3), (1, 3)]]"
    by code_simp
  show ?thesis unfolding c using a b by simp
qed





text \<open>
  Claim C4. In normal mode with tracking armed and progress 0 on a grid of the shape
  \<open>createGrid\<close> builds, with a path \<open>P\<close> of at least two distinct cells, an entry on
  \<open>P[1]\<close> (the player not standing on it already, the wrong-step callback registered)
  emits exactly one step event, a wrong-step with actual tile \<open>P[1]\<close> and expected tile
  \<open>P[0]\<close>; \<open>pathProgress\<close> stays 0, \<open>stepsOnPath\<close> is unchanged and tracking stays
  armed.
\<close>

theorem wrong_step_skipping_first:
  assumes "gridManager s = Some gm" "gridShaped gm" "getPath gm = P" "2 \<le> length P" "distinct P"
    and "isTracking s" "\<not> skipPathCheck s" "pathProgress s = 0"
    and "currentTile s \<noteq> Some (P ! 1)" "cb_onWrongStep s"
  shows "\<exists>s1. handleTriggerEntered (fst (P ! 1)) (snd (P ! 1)) s = Inr s1 \<and>
           filter isStepEvent (emitted s1) = filter isStepEvent (emitted s) @ [WrongStep (P ! 1) (P ! 0)] \<and>
           pathProgress s1 = 0 \<and> stepsOnPath s1 = stepsOnPath s \<and> isTracking s1"
proof -
  have c: "currentTile s \<noteq> Some (fst (P ! 1), snd (P ! 1))" using assms(9) by simp
  from handleTriggerEntered_armed[OF assms(6) c] obtain s3 where
    h: "handleTriggerEntered (fst (P ! 1)) (snd (P ! 1)) s = validateStep (P ! 1) s3"
    and s3: "sameSetup s s3" "gridManager s3 = gridManager s" "pathProgress s3 = pathProgress s"
      "stepsOnPath s3 = stepsOnPath s"
      "filter isStepEvent (emitted s3) = filter isStepEvent (emitted s)"
    by auto
  have d: "P ! 1 \<noteq> P ! 0"
  proof
    assume "P ! 1 = P ! 0"
    moreover have "1 < length P" "0 < length P" using assms(4) by linarith+
    ultimately have "(1::nat) = 0" using assms(5) by (simp only: nth_eq_iff_index_eq)
    then show False by simp
  qed
  have l: "0 < length P" using assms(4) by linarith
  have "\<exists>s1 gm1. validateStep (P ! 1) s3 = Inr s1 \<and> gridManager s1 = Some gm1 \<and>
           gridShaped gm1 \<and> getPath gm1 = P \<and> sameSetup s3 s1 \<and>
           currentTile s1 = currentTile s3 \<and>
           stepsOnPath s1 = stepsOnPath s3 \<and> pathProgress s1 = 0 \<and>
           emitted s1 = emitted s3 @
             (if cb_onWrongStep s3 then [WrongStep (P ! 1) (P ! 0)] else [])"
    using assms(1,2,3,7,8) s3 d l
    by (intro validateStep_wrong) (simp_all add: sameSetup_def)
  then obtain s1 where v: "validateStep (P ! 1) s3 = Inr s1" "sameSetup s3 s1"
    "stepsOnPath s1 = stepsOnPath s3" "pathProgress s1 = 0"
    "emitted s1 = emitted s3 @ (if cb_onWrongStep s3 then [WrongStep (P ! 1) (P ! 0)] else [])"
    by blast
  have "cb_onWrongStep s3" "isTracking s1" using assms(6,10) s3(1) v(2) by (simp_all add: sameSetup_def)
  with h v s3 show ?thesis by simp
qed

theorem wrong_step_skipping_first_witness:
  "gridManager armedTracker = Some (resetTriggers roundGrid) \<and>
   gridShaped (resetTriggers roundGrid) \<and>
   getPath (resetTriggers roundGrid) = [(2, 4), (1, 4), (0, 4), (0, 3), (1, 3)] \<and>
   isTracking armedTracker \<and> \<not> skipPathCheck armedTracker \<and>
   pathProgress armedTracker = 0 \<and> currentTile armedTracker = None \<and>
   cb_onWrongStep armedTracker \<and>
   (\<exists>s1. handleTriggerEntered 1 4 armedTracker = Inr s1 \<and>
      filter isStepEvent (emitted s1) = [WrongStep (1, 4) (2, 4)] \<and>
      pathProgress s1 = 0 \<and> stepsOnPath s1 = [] \<and> isTracking s1)"
proof -
  let ?P = "[(2, 4), (1, 4), (0, 4), (0, 3), (1, 3)] :: pos list"
  have g: "gridManager armedTracker = Some (resetTriggers roundGrid)"
    by (simp add: armedTracker_def startTracking_def sceneTracker_def)
  have sh: "gridShaped (resetTriggers roundGrid)" by code_simp
  have p: "getPath (resetTriggers roundGrid) = ?P" by code_simp
  have f: "isTracking armedTracker" "\<not> skipPathCheck armedTracker" "pathProgress armedTracker = 0"
    "currentTile armedTracker \<noteq> Some (?P ! 1)" "cb_onWrongStep armedTracker"
    by (simp_all add: armedTracker_def startTracking_def sceneTracker_def)
  have e: "emitted armedTracker = []" "currentTile armedTracker = None"
    "stepsOnPath armedTracker = []"
    by (simp_all add: armedTracker_def startTracking_def sceneTracker_def)
  have d: "2 \<le> length ?P" "distinct ?P" by simp_all
  from wrong_step_skipping_first[OF g sh p d f] obtain s1 where s1:
    "handleTriggerEntered (fst (?P ! 1)) (snd (?P ! 1)) armedTracker = Inr s1"
    "filter isStepEvent (emitted s1) =
       filter isStepEvent (emitted armedTracker) @ [WrongStep (?P ! 1) (?P ! 0)]"
    "pathProgress s1 = 0" "stepsOnPath s1 = stepsOnPath armedTracker" "isTracking s1"
    by (elim exE conjE)
  have "handleTriggerEntered 1 4 armedTracker = Inr s1" using s1(1) by simp
  moreover have "filter isStepEvent (emitted s1) = [WrongStep (1, 4) (2, 4)]"
    unfolding s1(2) using e(1) by simp
  moreover have "stepsOnPath s1 = []" using s1(4) e(3) by simp
  ultimately have "\<exists>s1. handleTriggerEntered 1 4 armedTracker = Inr s1 \<and>
      filter isStepEvent (emitted s1) = [WrongStep (1, 4) (2, 4)] \<and>
      pathProgress s1 = 0 \<and> stepsOnPath s1 = [] \<and> isTracking s1"
    using s1(3,5) by (intro exI[of _ s1] conjI)
  with g sh p f(1,2,3,5) e(2) show ?thesis by (intro conjI)
qed

text \<open>
  Claim C5. On a grid with at least one row and one column \<open>generatePathFromBottom\<close>
  always returns a path that begins at \<open>(floor(columns / 2), rows - 1)\<close>, for every
  requested length and every random source: the retries all start there, and the
  restart branch of the walk (which would pick a new random edge cell) is never reached
  from a start inside the grid. On the 5 by 5 grid with requested length 5 the result
  has exactly 5 cells, is connected and begins at \<open>(2, 4)\<close>.
\<close>

theorem generatePathFromBottom_start:
  "(1 \<le> rows \<and> 1 \<le> columns \<longrightarrow>
      (\<exists>p g1. generatePathFromBottom rows columns pathLength g = Inr (p, g1) \<and>
         p \<noteq> [] \<and> hd p = (columns div 2, rows - 1))) \<and>
   (\<exists>p g1. generatePathFromBottom 5 5 5 g = Inr (p, g1) \<and>
      length p = 5 \<and> isValidPath p \<and> hd p = (2, 4))"
proof (intro conjI impI)
  assume "1 \<le> rows \<and> 1 \<le> columns"
  then have "\<exists>p g1. generatePathFromBottom rows columns pathLength g = Inr (p, g1) \<and>
           pathInv rows columns p (set p) \<and> hd p = (columns div 2, rows - 1)"
    by (intro generatePathFromBottom_pathInv) simp_all
  then show "\<exists>p g1. generatePathFromBottom rows columns pathLength g = Inr (p, g1) \<and>
               p \<noteq> [] \<and> hd p = (columns div 2, rows - 1)"
    by (auto simp: pathInv_def)
next
  show "\<exists>p g1. generatePathFromBottom 5 5 5 g = Inr (p, g1) \<and>
          length p = 5 \<and> isValidPath p \<and> hd p = (2, 4)"
    by (rule generatePathFromBottom_5x5)
qed

theorem generatePathFromBottom_start_witness:
  "(1::int) \<le> 3 \<and> (1::int) \<le> 4 \<and>
   (\<exists>p g1. generatePathFromBottom 3 4 6 (\<lambda>n. n) = Inr (p, g1) \<and> p \<noteq> [] \<and> hd p = (2, 2)) \<and>
   map_sum id fst (generatePathFromBottom 3 4 6 (\<lambda>n. n)) =
     Inr [(2, 2), (3, 2), (3, 1), (2, 1), (2, 0), (3, 0)]"
proof -
  have e: "map_sum id fst (generatePathFromBottom 3 4 6 (\<lambda>n. n)) =
     Inr [(2, 2), (3, 2), (3, 1), (2, 1), (2, 0), (3, 0)]"
    by code_simp
  from generatePathFromBottom_start[of 3 4 6 "\<lambda>n. n"] e show ?thesis by simp
qed

text \<open>
  Claim C6. \<open>generatePath\<close> works with the requested length clamped to
  \<open>rows * columns\<close>. On a grid with at least one row and one column it never fails and
  never returns an empty path: with \<open>rs\<close> the ten attempts in the order they would be
  made, either the result is the first attempt that reaches the clamped length (and the
  random source is the one left by that attempt, so no later attempt ran), or no attempt
  reaches it and the result is one of the ten that is at least as long as every other,
  returned after the tenth attempt; its length is then below the requested one.
\<close>

theorem generatePath_best_effort:
  assumes "1 \<le> rows" "1 \<le> columns"
  shows "let L = min pathLength (rows * columns);
             rs = attemptResults MAX_RETRIES rows columns L startPos g
         in length rs = 10 \<and>
            (\<exists>p g1. generatePath rows columns pathLength startPos g = Inr (p, g1) \<and> p \<noteq> [] \<and>
               ((\<exists>k<10. rs ! k = (p, g1) \<and> L \<le> int (length p) \<and>
                         (\<forall>j<k. int (length (fst (rs ! j))) < L))
                \<or> ((\<forall>r\<in>set rs. int (length (fst r)) < L) \<and> p \<in> fst ` set rs \<and>
                    (\<forall>r\<in>set rs. length (fst r) \<le> length p) \<and> g1 = snd (last rs))))"
proof -
  define L where "L = min pathLength (rows * columns)"
  define rs where "rs = attemptResults MAX_RETRIES rows columns L startPos g"
  have len: "length rs = 10"
    unfolding rs_def using attemptResults_length[OF assms] by (simp add: MAX_RETRIES_def)
  have rne: "rs \<noteq> []" using len by auto
  have ch: "generatePath rows columns pathLength startPos g =
     (case find (\<lambda>r. L \<le> int (length (fst r))) rs of
        Some hit \<Rightarrow> Inr hit
      | None \<Rightarrow>
          (case foldl keepLongest None (map fst rs) of
             None \<Rightarrow> Inl TypeError
           | Some b \<Rightarrow> Inr (b, last (g # map snd rs))))"
    unfolding rs_def L_def generatePath_def Let_def
    by (rule generatePathRetries_char) (rule attemptResults_length[OF assms])
  have ne: "\<And>r. r \<in> set rs \<Longrightarrow> fst r \<noteq> []"
    unfolding rs_def using attemptResults_nonempty[OF assms] by blast
  have "\<exists>p g1. generatePath rows columns pathLength startPos g = Inr (p, g1) \<and> p \<noteq> [] \<and>
               ((\<exists>k<10. rs ! k = (p, g1) \<and> L \<le> int (length p) \<and>
                         (\<forall>j<k. int (length (fst (rs ! j))) < L))
                \<or> ((\<forall>r\<in>set rs. int (length (fst r)) < L) \<and> p \<in> fst ` set rs \<and>
                    (\<forall>r\<in>set rs. length (fst r) \<le> length p) \<and> g1 = snd (last rs)))"
  proof (cases "find (\<lambda>r. L \<le> int (length (fst r))) rs")
    case (Some hit)
    obtain p g1 where hit: "hit = (p, g1)" by (cases hit)
    from Some obtain k where k: "k < length rs" "L \<le> int (length (fst (rs ! k)))" "hit = rs ! k"
      "\<forall>j<k. \<not> L \<le> int (length (fst (rs ! j)))"
      by (auto simp: find_Some_iff)
    have rk: "rs ! k = (p, g1)" using k(3) hit by simp
    then have fp: "fst (rs ! k) = p" by simp
    have "rs ! k \<in> set rs" using k(1) by simp
    then have "p \<noteq> []" using ne[of "rs ! k"] fp by simp
    moreover have "\<exists>k<10. rs ! k = (p, g1) \<and> L \<le> int (length p) \<and>
                         (\<forall>j<k. int (length (fst (rs ! j))) < L)"
      using k(1,2,4) rk fp len by (intro exI[of _ k]) auto
    ultimately show ?thesis using ch Some hit by simp
  next
    case None
    then have all: "\<forall>r\<in>set rs. int (length (fst r)) < L"
      by (auto simp: find_None_iff)
    obtain p where p: "foldl keepLongest None (map fst rs) = Some p" "p \<in> set (map fst rs)"
      "\<forall>r\<in>set (map fst rs). length r \<le> length p"
      using foldl_keepLongest[of "map fst rs" None] rne by auto
    have "last (g # map snd rs) = snd (last rs)" using rne by (simp add: last_map)
    moreover have "p \<noteq> []" using p(2) ne by auto
    ultimately show ?thesis using ch None p all by auto
  qed
  with len show ?thesis unfolding L_def rs_def Let_def by blast
qed

theorem generatePath_best_effort_witness:
  "(1::int) \<le> 5 \<and> (1::int) \<le> 3 \<and>
   length (attemptResults MAX_RETRIES 5 5 (min 7 (5 * 5)) None (\<lambda>n. n * n + 1)) = 10 \<and>
   (\<exists>p g1. generatePath 5 5 7 None (\<lambda>n. n * n + 1) = Inr (p, g1) \<and>
      p = [(1, 0), (1, 1), (1, 2), (1, 3), (1, 4), (2, 4), (2, 3)]) \<and>
   (\<exists>p g1. generatePath 1 3 3 (Some (1, 0)) (\<lambda>n. 0) = Inr (p, g1) \<and> p = [(1, 0)])"
proof -
  have e1: "map_sum id fst (generatePath 5 5 7 None (\<lambda>n. n * n + 1)) =
           Inr [(1, 0), (1, 1), (1, 2), (1, 3), (1, 4), (2, 4), (2, 3)]"
    by code_simp
  have e2: "map_sum id fst (generatePath 1 3 3 (Some (1, 0)) (\<lambda>n. 0)) = Inr [(1, 0)]"
    by code_simp
  have h: "(1::int) \<le> 5" "(1::int) \<le> 3" "(1::int) \<le> 1" by simp_all
  from generatePath_best_effort[OF h(1) h(1), of 7 None "\<lambda>n. n * n + 1"]
       generatePath_best_effort[OF h(3) h(2), of 3 "Some (1, 0)" "\<lambda>n. 0"] e1 e2
  show ?thesis by (auto simp: Let_def)
qed

text \<open>
  Claim C7. A tile-entry event leaves the tracker exactly as it was (no event emitted,
  \<open>pathProgress\<close>, \<open>stepsOnPath\<close> and \<open>currentTile\<close> unchanged, no error) if and only
  if tracking is not armed or the entered tile is the current tile; an armed entry into
  any other tile is processed.
\<close>

theorem handleTriggerEntered_ignored_iff:
  "handleTriggerEntered gridX gridZ s = Inr s \<longleftrightarrow>
     \<not> isTracking s \<or> currentTile s = Some (gridX, gridZ)"
proof
  assume r: "handleTriggerEntered gridX gridZ s = Inr s"
  show "\<not> isTracking s \<or> currentTile s = Some (gridX, gridZ)"
  proof (rule ccontr)
    assume "\<not> (\<not> isTracking s \<or> currentTile s = Some (gridX, gridZ))"
    then have t: "isTracking s" and c: "currentTile s \<noteq> Some (gridX, gridZ)" by simp_all
    from c have n: "\<not> isSameGridPosition (Some (gridX, gridZ)) (currentTile s)"
      by (cases "currentTile s") auto
    from r t n obtain s3 where v: "validateStep (gridX, gridZ) s3 = Inr s"
      and c3: "currentTile s3 = Some (gridX, gridZ)"
      by (auto simp: handleTriggerEntered_def Let_def split: option.splits)
    from validateStep_currentTile[OF v] c3 c show False by simp
  qed
next
  assume "\<not> isTracking s \<or> currentTile s = Some (gridX, gridZ)"
  then show "handleTriggerEntered gridX gridZ s = Inr s"
    by (auto simp: handleTriggerEntered_def Let_def)
qed

theorem handleTriggerEntered_ignored_iff_witness:
  "\<not> isTracking sceneTracker \<and>
   handleTriggerEntered 2 4 sceneTracker = Inr sceneTracker \<and>
   isTracking (armedTracker\<lparr>currentTile := Some (2, 4)\<rparr>) \<and>
   handleTriggerEntered 2 4 (armedTracker\<lparr>currentTile := Some (2, 4)\<rparr>) =
     Inr (armedTracker\<lparr>currentTile := Some (2, 4)\<rparr>) \<and>
   isTracking armedTracker \<and> currentTile armedTracker = None \<and>
   handleTriggerEntered 2 4 armedTracker \<noteq> Inr armedTracker"
proof -
  have a: "\<not> isTracking sceneTracker" by (simp add: sceneTracker_def)
  have b: "isTracking armedTracker" "currentTile armedTracker = None"
    by (simp_all add: armedTracker_def startTracking_def)
  from handleTriggerEntered_ignored_iff[of 2 4 sceneTracker]
       handleTriggerEntered_ignored_iff[of 2 4 "armedTracker\<lparr>currentTile := Some (2, 4)\<rparr>"]
       handleTriggerEntered_ignored_iff[of 2 4 armedTracker] a b
  show ?thesis by simp
qed

text \<open>
  Claim C8. With a save manager registered, \<open>setupLevel\<close> (which runs before each
  round's path is generated) behaves as if the local level counter already held the
  saved level: a disagreement is overwritten by the saved value and never changes the
  outcome. The path length requested from the grid manager is the one of the saved
  level, \<open>min (BASE_PATH_LENGTH + (level - 1) * PATH_INCREMENT) MAX_PATH_LENGTH\<close>, and
  on a grid of the shape \<open>createGrid\<close> builds, with at least one row and one column,
  \<open>setupLevel\<close> returns without an error, the counter holding the saved level.
\<close>

theorem setupLevel_store_wins:
  assumes "saveManager gs = Some saveData"
  shows "setupLevel gs g = setupLevel (gs\<lparr>currentLevel := getCurrentLevel saveData\<rparr>) g \<and>
         setupLevel gs g =
           (case gs_gridManager gs of
              None \<Rightarrow>
                Inr (gs\<lparr>currentLevel := getCurrentLevel saveData,
                        memorizeTimeRemaining := MEMORIZE_TIME\<rparr>, g)
            | Some gm \<Rightarrow>
                (case generateNewPath
                        (min (BASE_PATH_LENGTH + (getCurrentLevel saveData - 1) * PATH_INCREMENT)
                             MAX_PATH_LENGTH) gm g of
                   Inl e \<Rightarrow> Inl e
                 | Inr (gm1, g1) \<Rightarrow>
                     Inr (gs\<lparr>currentLevel := getCurrentLevel saveData,
                             gs_gridManager := Some gm1,
                             memorizeTimeRemaining := MEMORIZE_TIME\<rparr>, g1))) \<and>
         (\<forall>gm. gs_gridManager gs = Some gm \<and> gridShaped gm \<and> 1 \<le> gm_rows gm \<and> 1 \<le> gm_columns gm
               \<longrightarrow> (\<exists>gs1 g1. setupLevel gs g = Inr (gs1, g1) \<and>
                       currentLevel gs1 = getCurrentLevel saveData))"
proof (intro conjI allI impI)
  let ?gs = "gs\<lparr>currentLevel := getCurrentLevel saveData\<rparr>"
  have s: "saveManager ?gs = Some saveData" using assms by simp
  show "setupLevel gs g = setupLevel ?gs g"
    unfolding setupLevel_with_store[OF assms] setupLevel_with_store[OF s]
    by (simp cong: option.case_cong sum.case_cong)
  show b: "setupLevel gs g =
           (case gs_gridManager gs of
              None \<Rightarrow>
                Inr (gs\<lparr>currentLevel := getCurrentLevel saveData,
                        memorizeTimeRemaining := MEMORIZE_TIME\<rparr>, g)
            | Some gm \<Rightarrow>
                (case generateNewPath
                        (min (BASE_PATH_LENGTH + (getCurrentLevel saveData - 1) * PATH_INCREMENT)
                             MAX_PATH_LENGTH) gm g of
                   Inl e \<Rightarrow> Inl e
                 | Inr (gm1, g1) \<Rightarrow>
                     Inr (gs\<lparr>currentLevel := getCurrentLevel saveData,
                             gs_gridManager := Some gm1,
                             memorizeTimeRemaining := MEMORIZE_TIME\<rparr>, g1)))"
    using assms by (rule setupLevel_with_store)
  fix gm
  assume h: "gs_gridManager gs = Some gm \<and> gridShaped gm \<and> 1 \<le> gm_rows gm \<and> 1 \<le> gm_columns gm"
  then obtain gm1 g1 where
    "generateNewPath (min (BASE_PATH_LENGTH + (getCurrentLevel saveData - 1) * PATH_INCREMENT)
                          MAX_PATH_LENGTH) gm g = Inr (gm1, g1)"
    using generateNewPath_total[of gm _ g] by blast
  with h show "\<exists>gs1 g1. setupLevel gs g = Inr (gs1, g1) \<and>
                 currentLevel gs1 = getCurrentLevel saveData"
    unfolding b by simp
qed

theorem setupLevel_store_wins_witness:
  "saveManager sceneGame = Some (Some \<lparr>sd_currentLevel = 3, sd_highestLevel = 3\<rparr>) \<and>
   currentLevel sceneGame = 1 \<and>
   getCurrentLevel (Some \<lparr>sd_currentLevel = 3, sd_highestLevel = 3\<rparr>) = 3 \<and>
   gs_gridManager sceneGame = Some placedGrid \<and> gridShaped placedGrid \<and>
   setupLevel sceneGame (\<lambda>n. 0) = setupLevel (sceneGame\<lparr>currentLevel := 3\<rparr>) (\<lambda>n. 0) \<and>
   (\<exists>gs1 g1. setupLevel sceneGame (\<lambda>n. 0) = Inr (gs1, g1) \<and> currentLevel gs1 = 3) \<and>
   map_sum id (\<lambda>r. (currentLevel (fst r), map_option gm_path (gs_gridManager (fst r))))
     (setupLevel sceneGame (\<lambda>n. 0)) =
     Inr (3, Some [(2, 4), (1, 4), (0, 4), (0, 3), (1, 3), (2, 3), (3, 3), (3, 2), (2, 2)])"
proof -
  have s: "saveManager sceneGame = Some (Some \<lparr>sd_currentLevel = 3, sd_highestLevel = 3\<rparr>)"
    "currentLevel sceneGame = 1" "gs_gridManager sceneGame = Some placedGrid"
    by (simp_all add: sceneGame_def)
  have l: "getCurrentLevel (Some \<lparr>sd_currentLevel = 3, sd_highestLevel = 3\<rparr>) = 3"
    by (simp add: getCurrentLevel_def)
  have sh: "gridShaped placedGrid" "1 \<le> gm_rows placedGrid" "1 \<le> gm_columns placedGrid"
    by code_simp+
  have v: "map_sum id (\<lambda>r. (currentLevel (fst r), map_option gm_path (gs_gridManager (fst r))))
     (setupLevel sceneGame (\<lambda>n. 0)) =
     Inr (3, Some [(2, 4), (1, 4), (0, 4), (0, 3), (1, 3), (2, 3), (3, 3), (3, 2), (2, 2)])"
    by code_simp
  note t = setupLevel_store_wins[OF s(1), of "\<lambda>n. 0"]
  have e: "setupLevel sceneGame (\<lambda>n. 0) = setupLevel (sceneGame\<lparr>currentLevel := 3\<rparr>) (\<lambda>n. 0)"
    using t[THEN conjunct1] l by simp
  have "gs_gridManager sceneGame = Some placedGrid \<and> gridShaped placedGrid \<and>
        1 \<le> gm_rows placedGrid \<and> 1 \<le> gm_columns placedGrid"
    using s(3) sh by simp
  with t[THEN conjunct2, THEN conjunct2] l
  have x: "\<exists>gs1 g1. setupLevel sceneGame (\<lambda>n. 0) = Inr (gs1, g1) \<and> currentLevel gs1 = 3"
    by auto
  show ?thesis using s l sh(1) e x v by (intro conjI)
qed

text \<open>
  Claim C9. One or more calls in a row of \<open>markTileCorrect\<close> with the same coordinates
  give the same result as a single call, and so do one or more calls of
  \<open>resetTileStates\<close> (the whole grid state, hence the per-tile state, \<open>isPathTile\<close> and
  \<open>pathIndex\<close>). On a grid of the shape \<open>createGrid\<close> builds both succeed, and
  \<open>resetTileStates\<close> leaves every tile with state default, \<open>isPathTile\<close> false and
  \<open>pathIndex\<close> -1.
\<close>

theorem mark_and_reset_idempotent:
  "(1 \<le> n \<longrightarrow> repeatCall n (markTileCorrect gridX gridZ) gm = markTileCorrect gridX gridZ gm) \<and>
   (1 \<le> n \<longrightarrow> repeatCall n resetTileStates gm = resetTileStates gm) \<and>
   (gridShaped gm \<longrightarrow>
      (\<exists>gm1. markTileCorrect gridX gridZ gm = Inr gm1) \<and>
      (\<exists>gm1. resetTileStates gm = Inr gm1 \<and>
         (\<forall>row\<in>set (tiles gm1). \<forall>t\<in>set row.
            tile_state t = StDefault \<and> \<not> isPathTile t \<and> pathIndex t = -1)))"
proof (intro conjI impI)
  assume "1 \<le> n"
  then obtain m where n: "n = Suc m" by (cases n) auto
  show "repeatCall n (markTileCorrect gridX gridZ) gm = markTileCorrect gridX gridZ gm"
    unfolding n markTileCorrect_def by (rule repeatCall_idem) (rule markTile_again)
  show "repeatCall n resetTileStates gm = resetTileStates gm"
    unfolding n by (rule repeatCall_idem) (rule resetTileStates_again)
next
  assume s: "gridShaped gm"
  show "\<exists>gm1. markTileCorrect gridX gridZ gm = Inr gm1"
    using markTileCorrect_shaped[OF s] by blast
  show "\<exists>gm1. resetTileStates gm = Inr gm1 \<and>
         (\<forall>row\<in>set (tiles gm1). \<forall>t\<in>set row.
            tile_state t = StDefault \<and> \<not> isPathTile t \<and> pathIndex t = -1)"
    using resetTileStates_shaped[OF s] by (auto simp: isReset_def)
qed

theorem mark_and_reset_idempotent_witness:
  "(1::nat) \<le> 3 \<and> gridShaped roundGrid \<and>
   repeatCall 3 (markTileCorrect 2 4) roundGrid = markTileCorrect 2 4 roundGrid \<and>
   repeatCall 3 resetTileStates roundGrid = resetTileStates roundGrid \<and>
   map_sum id (\<lambda>gm. map (map tile_state) (tiles gm)) (markTileCorrect 2 4 roundGrid) =
     Inr [[StDefault, StDefault, StDefault, StDefault, StDefault],
          [StDefault, StDefault, StDefault, StDefault, StDefault],
          [StDefault, StDefault, StDefault, StDefault, StDefault],
          [StPath, StEnd, StDefault, StDefault, StDefault],
          [StPath, StPath, StCorrect, StDefault, StDefault]] \<and>
   map_sum id (\<lambda>gm. map (map (\<lambda>t. (tile_state t, isPathTile t, pathIndex t))) (tiles gm))
     (resetTileStates roundGrid) =
     Inr (replicate 5 (replicate 5 (StDefault, False, -1)))"
proof -
  have h: "(1::nat) \<le> 3" by simp
  have sh: "gridShaped roundGrid" by code_simp
  have m: "map_sum id (\<lambda>gm. map (map tile_state) (tiles gm)) (markTileCorrect 2 4 roundGrid) =
     Inr [[StDefault, StDefault, StDefault, StDefault, StDefault],
          [StDefault, StDefault, StDefault, StDefault, StDefault],
          [StDefault, StDefault, StDefault, StDefault, StDefault],
          [StPath, StEnd, StDefault, StDefault, StDefault],
          [StPath, StPath, StCorrect, StDefault, StDefault]]"
    by code_simp
  have r: "map_sum id (\<lambda>gm. map (map (\<lambda>t. (tile_state t, isPathTile t, pathIndex t))) (tiles gm))
     (resetTileStates roundGrid) =
     Inr (replicate 5 (replicate 5 (StDefault, False, -1)))"
    by code_simp
  from mark_and_reset_idempotent[of 3 2 4 roundGrid] h sh m r show ?thesis by simp
qed



end
